theory Spec2Isabelle
  imports Main
begin

text \<open>
  The address book of \<^verbatim>\<open>address_book.py\<close>: fields, contact records with their phones and
  birthday, the book that holds the records by name, and its query for the birthdays of
  the coming week. Every method is a function from the state before the call to the state
  after it; an exception is a value of a sum type.
\<close>

section \<open>Python strings\<close>

text \<open>
  A Python \<open>str\<close> is a sequence of code points. It is modelled as a HOL \<open>string\<close>, one
  \<open>char\<close> per code point, which covers the code points U+0000 to U+00FF; \<open>length\<close> is
  then Python's \<open>len\<close>. On this range \<open>str.isnumeric\<close> holds of the digits \<open>0\<close> to \<open>9\<close>
  and of the six characters U+00B2, U+00B3, U+00B9 (superscripts two, three, one) and
  U+00BC, U+00BD, U+00BE (the fractions one quarter, one half, three quarters), while
  \<open>str.isdecimal\<close> and the regular expression class \<open>\d\<close> hold of \<open>0\<close> to \<open>9\<close> only.
\<close>

definition isdecimal_char :: "char \<Rightarrow> bool" where
  "isdecimal_char c = (let n = (of_char c :: nat) in 48 \<le> n \<and> n \<le> 57)"

definition isnumeric_char :: "char \<Rightarrow> bool" where
  "isnumeric_char c =
     (let n = (of_char c :: nat)
      in (48 \<le> n \<and> n \<le> 57) \<or> n = 178 \<or> n = 179 \<or> n = 185
         \<or> n = 188 \<or> n = 189 \<or> n = 190)"

text \<open>\<open>s.isnumeric()\<close>: every character is numeric and there is at least one.\<close>

definition isnumeric :: "string \<Rightarrow> bool" where
  "isnumeric s = (s \<noteq> [] \<and> list_all isnumeric_char s)"

text \<open>
  The specification's notion of a phone number: exactly ten characters, each a decimal
  digit. This predicate is the specification's, not the program's; the program's check
  is \<open>is_phone_valid\<close> below.
\<close>

definition ten_decimal_digits :: "string \<Rightarrow> bool" where
  "ten_decimal_digits p = (length p = 10 \<and> list_all isdecimal_char p)"


section \<open>Errors\<close>

text \<open>
  An exception is a value: the kind of the error. The text of a message raised inside
  Python's own library differs between versions of the interpreter and is not modelled;
  the one message the program itself composes is carried by \<open>Birthday_init\<close> below.
\<close>

datatype error = ValueError | OverflowError | AttributeError

definition bind :: "error + 'a \<Rightarrow> ('a \<Rightarrow> error + 'b) \<Rightarrow> error + 'b" where
  "bind r f = (case r of Inl e \<Rightarrow> Inl e | Inr x \<Rightarrow> f x)"


section \<open>Dates (the part of Python's \<open>datetime\<close> the program uses)\<close>

text \<open>
  The calendar arithmetic follows the reference implementation of the \<open>datetime\<close>
  module: proleptic Gregorian dates, years 1 to 9999, day 1 being 1 January of year 1.
\<close>

record date =
  year :: int
  month :: int
  day :: int

definition MINYEAR :: int where "MINYEAR = 1"

definition MAXYEAR :: int where "MAXYEAR = 9999"

definition MAXORDINAL :: int where "MAXORDINAL = 3652059"

definition DAYS_IN_MONTH :: "int list" where
  "DAYS_IN_MONTH = [-1, 31, 28, 31, 30, 31, 30, 31, 31, 30, 31, 30, 31]"

definition DAYS_BEFORE_MONTH :: "int list" where
  "DAYS_BEFORE_MONTH = [-1, 0, 31, 59, 90, 120, 151, 181, 212, 243, 273, 304, 334]"

definition is_leap :: "int \<Rightarrow> bool" where
  "is_leap y = (y mod 4 = 0 \<and> (y mod 100 \<noteq> 0 \<or> y mod 400 = 0))"

definition days_before_year :: "int \<Rightarrow> int" where
  "days_before_year y = (let y1 = y - 1 in y1 * 365 + y1 div 4 - y1 div 100 + y1 div 400)"

text \<open>The two table look-ups are only made with a month from 1 to 12.\<close>

definition days_in_month :: "int \<Rightarrow> int \<Rightarrow> int" where
  "days_in_month y m = (if m = 2 \<and> is_leap y then 29 else DAYS_IN_MONTH ! nat m)"

definition days_before_month :: "int \<Rightarrow> int \<Rightarrow> int" where
  "days_before_month y m = DAYS_BEFORE_MONTH ! nat m + (if m > 2 \<and> is_leap y then 1 else 0)"

definition ymd2ord :: "int \<Rightarrow> int \<Rightarrow> int \<Rightarrow> int" where
  "ymd2ord y m d = days_before_year y + days_before_month y m + d"

text \<open>
  The inverse: from a day number to year, month and day. The number is split into
  cycles of 400 years (146097 days), 100 years (36524 days), 4 years (1461 days) and single
  years. \<open>ord2md\<close> is the last part of the library's function: given the offset \<open>n\<close> of
  the day from 1 January, the month is first estimated and then corrected by at most one.
\<close>

definition ord2md :: "bool \<Rightarrow> int \<Rightarrow> int \<times> int" where
  "ord2md leapyear n =
     (let m = (n + 50) div 32;
          preceding = DAYS_BEFORE_MONTH ! nat m + (if m > 2 \<and> leapyear then 1 else 0);
          (m, preceding) =
            (if preceding > n
             then (m - 1,
                   preceding - (DAYS_IN_MONTH ! nat (m - 1)
                                 + (if m - 1 = 2 \<and> leapyear then 1 else 0)))
             else (m, preceding))
      in (m, n - preceding + 1))"

definition ord2ymd :: "int \<Rightarrow> int \<times> int \<times> int" where
  "ord2ymd n0 =
     (let n = n0 - 1;
          n400 = n div 146097; n = n mod 146097;
          y = n400 * 400 + 1;
          n100 = n div 36524; n = n mod 36524;
          n4 = n div 1461; n = n mod 1461;
          n1 = n div 365; n = n mod 365;
          y = y + (n100 * 100 + n4 * 4 + n1)
      in if n1 = 4 \<or> n100 = 4 then (y - 1, 12, 31)
         else (y, ord2md (n1 = 3 \<and> (n4 \<noteq> 24 \<or> n100 = 3)) n))"

text \<open>
  The constructor \<open>date(year, month, day)\<close> checks its fields and raises \<open>ValueError\<close>
  when they do not name a day of the calendar.
\<close>

definition date_new :: "int \<Rightarrow> int \<Rightarrow> int \<Rightarrow> error + date" where
  "date_new y m d =
     (if \<not> (MINYEAR \<le> y \<and> y \<le> MAXYEAR) then Inl ValueError
      else if \<not> (1 \<le> m \<and> m \<le> 12) then Inl ValueError
      else if \<not> (1 \<le> d \<and> d \<le> days_in_month y m) then Inl ValueError
      else Inr \<lparr>year = y, month = m, day = d\<rparr>)"

text \<open>Every \<open>date\<close> object of the program was built by the constructor, so it is valid.\<close>

definition valid_date :: "date \<Rightarrow> bool" where
  "valid_date d =
     (MINYEAR \<le> year d \<and> year d \<le> MAXYEAR \<and> 1 \<le> month d \<and> month d \<le> 12
      \<and> 1 \<le> day d \<and> day d \<le> days_in_month (year d) (month d))"

text \<open>\<open>d.replace(year=y)\<close> builds a new date through the constructor.\<close>

definition replace_year :: "date \<Rightarrow> int \<Rightarrow> error + date" where
  "replace_year d y = date_new y (month d) (day d)"

definition toordinal :: "date \<Rightarrow> int" where
  "toordinal d = ymd2ord (year d) (month d) (day d)"

definition fromordinal :: "int \<Rightarrow> error + date" where
  "fromordinal n = (case ord2ymd n of (y, m, d) \<Rightarrow> date_new y m d)"

text \<open>Monday is 0 and Sunday is 6.\<close>

definition weekday :: "date \<Rightarrow> int" where
  "weekday d = (toordinal d + 6) mod 7"

text \<open>\<open>d1 < d2\<close> compares the triples of year, month and day.\<close>

definition date_lt :: "date \<Rightarrow> date \<Rightarrow> bool" where
  "date_lt a b =
     (year a < year b \<or> (year a = year b \<and>
        (month a < month b \<or> (month a = month b \<and> day a < day b))))"

text \<open>\<open>d + timedelta(days=k)\<close>.\<close>

definition date_add_days :: "date \<Rightarrow> int \<Rightarrow> error + date" where
  "date_add_days d k =
     (let ordinal = toordinal d + k
      in if 0 < ordinal \<and> ordinal \<le> MAXORDINAL then fromordinal ordinal
         else Inl OverflowError)"

text \<open>\<open>(d1 - d2).days\<close>.\<close>

definition date_sub_days :: "date \<Rightarrow> date \<Rightarrow> int" where
  "date_sub_days a b = toordinal a - toordinal b"

text \<open>
  A \<open>datetime\<close> without time zone. \<open>datetime.strptime\<close> with the format \<open>%d.%m.%Y\<close>
  leaves the four time fields at zero.
\<close>

record datetime =
  dt_date :: date
  hour :: int
  minute :: int
  second :: int
  microsecond :: int

text \<open>\<open>dt.date()\<close>.\<close>

definition datetime_date :: "datetime \<Rightarrow> date" where
  "datetime_date dt = dt_date dt"

subsection \<open>Formatting\<close>

definition digit_char :: "nat \<Rightarrow> char" where
  "digit_char n = char_of (48 + n)"

text \<open>The decimal digits of a natural number, most significant first.\<close>

fun str_nat :: "nat \<Rightarrow> string" where
  "str_nat n = (if n < 10 then [digit_char n] else str_nat (n div 10) @ [digit_char (n mod 10)])"

declare str_nat.simps [simp del]

text \<open>The conversion \<open>%0wd\<close>: at least \<open>w\<close> characters, filled with zeros after the sign.\<close>

definition zero_pad :: "nat \<Rightarrow> int \<Rightarrow> string" where
  "zero_pad w i =
     (if i < 0
      then (let s = str_nat (nat (- i)) in CHR ''-'' # replicate (w - 1 - length s) (CHR ''0'') @ s)
      else (let s = str_nat (nat i) in replicate (w - length s) (CHR ''0'') @ s))"

text \<open>
  \<open>d.strftime(DATE_FORMAT)\<close> with \<open>DATE_FORMAT = "%d.%m.%Y"\<close>: day and month in two
  digits, the year as the C library prints it on Linux, in decimal without padding (from
  the year 1000 on these are the four digits of the year).
\<close>

definition strftime_DATE_FORMAT :: "date \<Rightarrow> string" where
  "strftime_DATE_FORMAT d =
     zero_pad 2 (day d) @ ''.'' @ zero_pad 2 (month d) @ ''.'' @ zero_pad 1 (year d)"

text \<open>
  \<open>str(dt)\<close> of a \<open>datetime\<close> without time zone is \<open>dt.isoformat(sep=' ')\<close>; the
  microseconds are printed only when they are not zero.
\<close>

definition datetime_str :: "datetime \<Rightarrow> string" where
  "datetime_str dt =
     zero_pad 4 (year (dt_date dt)) @ ''-'' @ zero_pad 2 (month (dt_date dt)) @ ''-''
       @ zero_pad 2 (day (dt_date dt)) @ '' ''
       @ zero_pad 2 (hour dt) @ '':'' @ zero_pad 2 (minute dt) @ '':'' @ zero_pad 2 (second dt)
       @ (if microsecond dt \<noteq> 0 then ''.'' @ zero_pad 6 (microsecond dt) else [])"


subsection \<open>Parsing\<close>

text \<open>
  \<open>datetime.strptime(value, DATE_FORMAT)\<close> compiles the format into the regular
  expression
  \<^verbatim>\<open>(?P<d>3[0-1]|[1-2]\d|0[1-9]|[1-9]| [1-9])\.(?P<m>1[0-2]|0[1-9]|[1-9])\.(?P<Y>\d\d\d\d)\<close>
  and matches it at the start of the value. Each group below lists, in the order of its
  alternatives, the ways it can match a prefix: the matched text and the rest.
\<close>

definition digit19 :: "char \<Rightarrow> bool" where
  "digit19 c = (let n = (of_char c :: nat) in 49 \<le> n \<and> n \<le> 57)"

definition re_d :: "string \<Rightarrow> (string \<times> string) list" where
  "re_d s =
     (case s of a # b # r \<Rightarrow>
        (if a = CHR ''3'' \<and> (b = CHR ''0'' \<or> b = CHR ''1'') then [([a, b], r)] else [])
        @ (if (a = CHR ''1'' \<or> a = CHR ''2'') \<and> isdecimal_char b then [([a, b], r)] else [])
        @ (if a = CHR ''0'' \<and> digit19 b then [([a, b], r)] else [])
        @ (if digit19 a then [([a], b # r)] else [])
        @ (if a = CHR '' '' \<and> digit19 b then [([a, b], r)] else [])
      | [a] \<Rightarrow> (if digit19 a then [([a], [])] else [])
      | [] \<Rightarrow> [])"

definition re_m :: "string \<Rightarrow> (string \<times> string) list" where
  "re_m s =
     (case s of a # b # r \<Rightarrow>
        (if a = CHR ''1'' \<and> (b = CHR ''0'' \<or> b = CHR ''1'' \<or> b = CHR ''2'')
         then [([a, b], r)] else [])
        @ (if a = CHR ''0'' \<and> digit19 b then [([a, b], r)] else [])
        @ (if digit19 a then [([a], b # r)] else [])
      | [a] \<Rightarrow> (if digit19 a then [([a], [])] else [])
      | [] \<Rightarrow> [])"

definition re_Y :: "string \<Rightarrow> (string \<times> string) list" where
  "re_Y s =
     (case s of a # b # c # d # r \<Rightarrow>
        (if isdecimal_char a \<and> isdecimal_char b \<and> isdecimal_char c \<and> isdecimal_char d
         then [([a, b, c, d], r)] else [])
      | _ \<Rightarrow> [])"

definition re_dot :: "string \<Rightarrow> string list" where
  "re_dot s = (case s of a # r \<Rightarrow> (if a = CHR ''.'' then [r] else []) | [] \<Rightarrow> [])"

text \<open>
  The match found is the first one in the order of backtracking; the result is the
  texts of the three groups and what is left of the value after the match.
\<close>

definition format_regex_match :: "string \<Rightarrow> ((string \<times> string \<times> string) \<times> string) option" where
  "format_regex_match s =
     (case [((d, m, y), r5). (d, r1) \<leftarrow> re_d s, r2 \<leftarrow> re_dot r1, (m, r3) \<leftarrow> re_m r2,
                             r4 \<leftarrow> re_dot r3, (y, r5) \<leftarrow> re_Y r4]
      of [] \<Rightarrow> None | found # _ \<Rightarrow> Some found)"

text \<open>
  \<open>int(text)\<close> on the text of a group: blanks in front are skipped, the rest must be a
  non-empty run of decimal digits.
\<close>

fun int_digits :: "string \<Rightarrow> int \<Rightarrow> int option" where
  "int_digits [] acc = Some acc"
| "int_digits (c # cs) acc =
     (if isdecimal_char c then int_digits cs (acc * 10 + (int (of_char c) - 48)) else None)"

definition py_int :: "string \<Rightarrow> int option" where
  "py_int s =
     (let t = dropWhile (\<lambda>c. c = CHR '' '') s
      in if t = [] then None else int_digits t 0)"

text \<open>
  Every failure of \<open>strptime\<close> on a string is a \<open>ValueError\<close>: no match, text left
  over after the match, or fields that do not name a day of the calendar.
\<close>

definition strptime_DATE_FORMAT :: "string \<Rightarrow> error + datetime" where
  "strptime_DATE_FORMAT data_string =
     (case format_regex_match data_string of
        None \<Rightarrow> Inl ValueError
      | Some ((d, m, y), rest) \<Rightarrow>
          if rest \<noteq> [] then Inl ValueError
          else (case (py_int y, py_int m, py_int d) of
                  (Some yy, Some mm, Some dd) \<Rightarrow>
                    bind (date_new yy mm dd)
                      (\<lambda>dte. Inr \<lparr>dt_date = dte, hour = 0, minute = 0, second = 0, microsecond = 0\<rparr>)
                | _ \<Rightarrow> Inl ValueError))"


section \<open>Fields and records\<close>

text \<open>
  \<open>Field\<close> wraps one value; \<open>Name\<close> and \<open>Phone\<close> wrap a string, \<open>Birthday\<close> wraps the
  \<open>datetime\<close> that \<open>strptime\<close> returned.
\<close>

datatype Name = Name (name_value: string)

datatype Phone = Phone (phone_value: string)

datatype Birthday = Birthday (birthday_value: datetime)

text \<open>
  \<open>Birthday.__init__(value)\<close> parses the string and replaces every \<open>ValueError\<close> of the
  parser by a \<open>ValueError\<close> with a message of its own: \<open>Inl\<close> carries that message.
\<close>

definition Birthday_init :: "string \<Rightarrow> string + Birthday" where
  "Birthday_init v =
     (case strptime_DATE_FORMAT v of
        Inr dt \<Rightarrow> Inr (Birthday dt)
      | Inl e \<Rightarrow> Inl ''Invalid date format. Use DD.MM.YYYY'')"

text \<open>
  \<open>Field.__str__\<close> returns \<open>str(self.value)\<close>. \<open>Birthday\<close> inherits it, and its value
  is a \<open>datetime\<close>.
\<close>

definition Name_str :: "Name \<Rightarrow> string" where
  "Name_str f = name_value f"

definition Phone_str :: "Phone \<Rightarrow> string" where
  "Phone_str f = phone_value f"

definition Birthday_str :: "Birthday \<Rightarrow> string" where
  "Birthday_str f = datetime_str (birthday_value f)"

record Record =
  name :: Name
  phones :: "Phone list"
  birthday :: "Birthday option"

text \<open>\<open>Record.__init__(name, birthday=None)\<close>.\<close>

definition Record_init :: "string \<Rightarrow> Birthday option \<Rightarrow> Record" where
  "Record_init n b = \<lparr>name = Name n, phones = [], birthday = b\<rparr>"

definition is_phone_valid :: "string \<Rightarrow> bool" where
  "is_phone_valid phone = (length phone = 10 \<and> isnumeric phone)"

text \<open>
  \<open>add_phone\<close> mutates the record and returns a message: the pair is the record after
  the call and the returned string. The second \<open>if\<close> of the source tests the list
  \<open>self.phones\<close> after the possible append, not the outcome of the validity test.
\<close>

definition add_phone :: "Record \<Rightarrow> string \<Rightarrow> Record \<times> string" where
  "add_phone self phone =
     (let self1 = (if is_phone_valid phone
                   then self\<lparr>phones := phones self @ [Phone phone]\<rparr>
                   else self)
      in if phones self1 \<noteq> []
         then (self1, ''The phone is added successfully'')
         else (self1, ''Phone '' @ phone @
                 '' was not added, it should be 10 digits long and numeric''))"

text \<open>The loop of \<open>remove_phone\<close>: delete at the first index whose value matches, then stop.\<close>

fun remove_phone_loop :: "Phone list \<Rightarrow> string \<Rightarrow> Phone list" where
  "remove_phone_loop [] phone = []"
| "remove_phone_loop (p # ps) phone =
     (if phone_value p = phone then ps else p # remove_phone_loop ps phone)"

definition remove_phone :: "Record \<Rightarrow> string \<Rightarrow> Record" where
  "remove_phone self phone = self\<lparr>phones := remove_phone_loop (phones self) phone\<rparr>"

text \<open>The loop of \<open>edit_phone\<close>: overwrite at the first index whose value matches, then stop.\<close>

fun edit_phone_loop :: "Phone list \<Rightarrow> string \<Rightarrow> string \<Rightarrow> Phone list" where
  "edit_phone_loop [] old_value new_value = []"
| "edit_phone_loop (p # ps) old_value new_value =
     (if phone_value p = old_value then Phone new_value # ps
      else p # edit_phone_loop ps old_value new_value)"

definition edit_phone :: "Record \<Rightarrow> string \<Rightarrow> string \<Rightarrow> Record" where
  "edit_phone self old_value new_value =
     (if is_phone_valid new_value
      then self\<lparr>phones := edit_phone_loop (phones self) old_value new_value\<rparr>
      else self)"

text \<open>
  What the program's own check guarantees of a record: every stored phone passed
  \<open>is_phone_valid\<close>.
\<close>

definition phones_valid :: "Record \<Rightarrow> bool" where
  "phones_valid r = (\<forall>p \<in> set (phones r). is_phone_valid (phone_value p))"

text \<open>\<open>find_phone\<close> returns the first phone whose value matches, or \<open>None\<close>.\<close>

fun find_phone_loop :: "Phone list \<Rightarrow> string \<Rightarrow> Phone option" where
  "find_phone_loop [] phone = None"
| "find_phone_loop (p # ps) phone =
     (if phone_value p = phone then Some p else find_phone_loop ps phone)"

definition find_phone :: "Record \<Rightarrow> string \<Rightarrow> Phone option" where
  "find_phone self phone = find_phone_loop (phones self) phone"

text \<open>
  \<open>add_birthday\<close> assigns the new \<open>Birthday\<close> only when its construction returned; the
  message of the caught \<open>ValueError\<close> is the result otherwise.
\<close>

definition add_birthday :: "Record \<Rightarrow> string \<Rightarrow> Record \<times> string" where
  "add_birthday self v =
     (case Birthday_init v of
        Inr b \<Rightarrow> (self\<lparr>birthday := Some b\<rparr>, ''Birthday is added successfully'')
      | Inl err \<Rightarrow> (self, err))"


section \<open>The address book\<close>

text \<open>
  \<open>AddressBook\<close> is a \<open>UserDict\<close>: its state is the dictionary \<open>self.data\<close>. A Python
  dictionary keeps its keys in insertion order and holds each key once; it is modelled
  as an association list. Assigning to a key that is present overwrites the value in
  place, assigning to a new key appends.
\<close>

fun dict_get :: "('k \<times> 'v) list \<Rightarrow> 'k \<Rightarrow> 'v option" where
  "dict_get [] k = None"
| "dict_get ((k', v) # kvs) k = (if k' = k then Some v else dict_get kvs k)"

fun dict_set :: "('k \<times> 'v) list \<Rightarrow> 'k \<Rightarrow> 'v \<Rightarrow> ('k \<times> 'v) list" where
  "dict_set [] k v = [(k, v)]"
| "dict_set ((k', v') # kvs) k v =
     (if k' = k then (k, v) # kvs else (k', v') # dict_set kvs k v)"

fun dict_pop :: "('k \<times> 'v) list \<Rightarrow> 'k \<Rightarrow> ('k \<times> 'v) list" where
  "dict_pop [] k = []"
| "dict_pop ((k', v') # kvs) k = (if k' = k then kvs else (k', v') # dict_pop kvs k)"

definition dict_contains :: "('k \<times> 'v) list \<Rightarrow> 'k \<Rightarrow> bool" where
  "dict_contains kvs k = (dict_get kvs k \<noteq> None)"

record AddressBook =
  data :: "(string \<times> Record) list"

text \<open>\<open>AddressBook()\<close>: the empty book.\<close>

definition AddressBook_init :: AddressBook where
  "AddressBook_init = \<lparr>data = []\<rparr>"

text \<open>The well-formedness of a dictionary: no key occurs twice.\<close>

definition dict_ok :: "('k \<times> 'v) list \<Rightarrow> bool" where
  "dict_ok kvs = distinct (map fst kvs)"

definition add_record :: "AddressBook \<Rightarrow> Record \<Rightarrow> AddressBook" where
  "add_record self record = self\<lparr>data := dict_set (data self) (name_value (name record)) record\<rparr>"

definition find_record :: "AddressBook \<Rightarrow> string \<Rightarrow> Record option" where
  "find_record self n = dict_get (data self) n"

definition delete :: "AddressBook \<Rightarrow> string \<Rightarrow> AddressBook" where
  "delete self n =
     (if dict_contains (data self) n then self\<lparr>data := dict_pop (data self) n\<rparr> else self)"



section \<open>Upcoming birthdays\<close>

definition DAYS_IN_WEEK :: int where "DAYS_IN_WEEK = 7"

definition WEEKEND_DAYS :: "int list" where "WEEKEND_DAYS = [5, 6]"

definition adjust_for_weekend :: "date \<Rightarrow> error + date" where
  "adjust_for_weekend d =
     (if weekday d \<in> set WEEKEND_DAYS then date_add_days d (DAYS_IN_WEEK - weekday d)
      else Inr d)"

text \<open>
  The date the loop calls \<open>birthday_this_year\<close> after its two assignments: the birthday
  moved into the year of \<open>today\<close>, and into the next year when that day is already past.
\<close>

definition birthday_this_year :: "date \<Rightarrow> date \<Rightarrow> error + date" where
  "birthday_this_year today b =
     bind (replace_year b (year today))
       (\<lambda>c. if date_lt c today then replace_year c (year today + 1) else Inr c)"

text \<open>
  One element of the result list: the dictionary with the keys \<open>name\<close> and
  \<open>congratulation_date\<close>.
\<close>

record upcoming =
  up_name :: string
  congratulation_date :: string

text \<open>
  The body of the loop for one contact: \<open>Inr None\<close> stands for \<open>continue\<close>, \<open>Inr (Some e)\<close>
  for the element appended. The value of a \<open>Birthday\<close> is always a \<open>datetime\<close>, so the
  branch of the source for another type of value is never taken.
\<close>

definition upcoming_body :: "date \<Rightarrow> Record \<Rightarrow> error + upcoming option" where
  "upcoming_body today contact =
     (case birthday contact of
        None \<Rightarrow> Inr None
      | Some b \<Rightarrow>
          bind (birthday_this_year today (datetime_date (birthday_value b)))
            (\<lambda>c. let delta_days = date_sub_days c today
                 in if \<not> (0 \<le> delta_days \<and> delta_days \<le> 7) then Inr None
                    else bind (adjust_for_weekend c)
                           (\<lambda>cd. Inr (Some \<lparr>up_name = name_value (name contact),
                                             congratulation_date = strftime_DATE_FORMAT cd\<rparr>))))"

text \<open>
  The loop runs over the keys of the dictionary in their order and looks each one up
  again; a key without a record would make the attribute access fail.
\<close>

fun upcoming_loop ::
  "date \<Rightarrow> (string \<times> Record) list \<Rightarrow> string list \<Rightarrow> upcoming list \<Rightarrow> error + upcoming list" where
  "upcoming_loop today d [] upcoming_birthdays = Inr upcoming_birthdays"
| "upcoming_loop today d (k # ks) upcoming_birthdays =
     (case dict_get d k of
        None \<Rightarrow> Inl AttributeError
      | Some contact \<Rightarrow>
          (case upcoming_body today contact of
             Inl e \<Rightarrow> Inl e
           | Inr None \<Rightarrow> upcoming_loop today d ks upcoming_birthdays
           | Inr (Some e) \<Rightarrow> upcoming_loop today d ks (upcoming_birthdays @ [e])))"

text \<open>\<open>today\<close> is the value of \<open>datetime.today().date()\<close> at the call.\<close>

definition get_upcoming_birthdays :: "date \<Rightarrow> AddressBook \<Rightarrow> error + upcoming list" where
  "get_upcoming_birthdays today self =
     upcoming_loop today (data self) (map fst (data self)) []"



section \<open>Errors as values\<close>

lemma bind_Inr: "bind r f = Inr y \<longleftrightarrow> (\<exists>x. r = Inr x \<and> f x = Inr y)"
  by (cases r) (simp_all add: bind_def)

lemma bind_Inl: "bind r f = Inl e \<longleftrightarrow> (r = Inl e \<or> (\<exists>x. r = Inr x \<and> f x = Inl e))"
  by (cases r) (simp_all add: bind_def)


section \<open>Day numbers and dates\<close>

text \<open>
  The conversion from a day number back to a date inverts \<open>ymd2ord\<close> on the whole range of
  the calendar, and its result passes the checks of the constructor.
\<close>

lemma div_quot_rem:
  fixes q r k :: int
  assumes "0 \<le> r" "r < k"
  shows "(k * q + r) div k = q" and "(k * q + r) mod k = r"
  using assms by simp_all

lemma days_before_year_cycles:
  assumes "0 \<le> a" "0 \<le> b" "b \<le> 3" "0 \<le> c" "c \<le> 24" "0 \<le> e" "e \<le> 3"
  shows "days_before_year (a * 400 + 1 + (b * 100 + c * 4 + e))
         = a * 146097 + b * 36524 + c * 1461 + e * 365"
proof -
  let ?u = "a * 400 + (b * 100 + c * 4 + e)"
  have u4: "?u = 4 * (100 * a + 25 * b + c) + e" by simp
  have u100: "?u = 100 * (4 * a + b) + (4 * c + e)" by simp
  have u400: "?u = 400 * a + (100 * b + 4 * c + e)" by simp
  have d4: "?u div 4 = 100 * a + 25 * b + c"
    using assms by (subst u4) (rule div_quot_rem(1), simp_all)
  have d100: "?u div 100 = 4 * a + b"
    using assms by (subst u100) (rule div_quot_rem(1), simp_all)
  have d400: "?u div 400 = a"
    using assms by (subst u400) (rule div_quot_rem(1), simp_all)
  have eq: "a * 400 + 1 + (b * 100 + c * 4 + e) - 1 = ?u" by simp
  show ?thesis
    unfolding days_before_year_def Let_def eq d4 d100 d400 by simp
qed

lemma is_leap_cycles:
  assumes "0 \<le> a" "0 \<le> b" "b \<le> 3" "0 \<le> c" "c \<le> 24" "0 \<le> e" "e \<le> 3"
  shows "is_leap (a * 400 + 1 + (b * 100 + c * 4 + e)) = (e = 3 \<and> (c \<noteq> 24 \<or> b = 3))"
proof -
  let ?y = "a * 400 + 1 + (b * 100 + c * 4 + e)"
  have m4: "?y mod 4 = (1 + e) mod 4"
  proof -
    have "?y = (1 + e) + (100 * a + 25 * b + c) * 4" by simp
    then show ?thesis by (metis mod_mult_self1)
  qed
  have m100: "?y mod 100 = (4 * c + e + 1) mod 100"
  proof -
    have "?y = (4 * c + e + 1) + (4 * a + b) * 100" by simp
    then show ?thesis by (metis mod_mult_self1)
  qed
  have m400: "?y mod 400 = (100 * b + 4 * c + e + 1) mod 400"
  proof -
    have "?y = (100 * b + 4 * c + e + 1) + a * 400" by simp
    then show ?thesis by (metis mod_mult_self1)
  qed
  have e4: "((1 + e) mod 4 = 0) = (e = 3)"
  proof -
    from assms have "e = 0 \<or> e = 1 \<or> e = 2 \<or> e = 3" by linarith
    then show ?thesis by auto
  qed
  have c100: "((4 * c + 3 + 1) mod 100 = 0) = (c = 24)"
  proof (cases "c = 24")
    case True
    then show ?thesis by simp
  next
    case False
    with assms have "0 \<le> 4 * c + 3 + 1" "4 * c + 3 + 1 < 100" by linarith+
    then have "(4 * c + 3 + 1) mod 100 = 4 * c + 3 + 1" by simp
    with False assms show ?thesis by simp
  qed
  have b400: "((100 * b + 4 * 24 + 3 + 1) mod 400 = 0) = (b = 3)"
  proof -
    from assms have "b = 0 \<or> b = 1 \<or> b = 2 \<or> b = 3" by linarith
    then show ?thesis by auto
  qed
  show ?thesis
  proof (cases "e = 3")
    case False
    then show ?thesis unfolding is_leap_def m4 using e4 by simp
  next
    case e3: True
    show ?thesis
    proof (cases "c = 24")
      case False
      then show ?thesis unfolding is_leap_def m4 m100 using e4 c100 e3 by simp
    next
      case True
      then show ?thesis unfolding is_leap_def m4 m100 m400 using e4 c100 b400 e3 by simp
    qed
  qed
qed


lemma int_range_cases_1_12:
  fixes k :: int
  assumes "1 \<le> k" "k \<le> 12"
  shows "k = 1 \<or> k = 2 \<or> k = 3 \<or> k = 4 \<or> k = 5 \<or> k = 6 \<or> k = 7
      \<or> k = 8 \<or> k = 9 \<or> k = 10 \<or> k = 11 \<or> k = 12"
  using assms by presburger

lemma ord2md_correct:
  assumes "0 \<le> n" "n < (if leap then 366 else 365)" "ord2md leap n = (m, d)"
  shows "1 \<le> m \<and> m \<le> 12 \<and> 1 \<le> d
       \<and> d \<le> (if m = 2 \<and> leap then 29 else DAYS_IN_MONTH ! nat m)
       \<and> DAYS_BEFORE_MONTH ! nat m + (if m > 2 \<and> leap then 1 else 0) + d = n + 1"
proof -
  define k where "k = (n + 50) div 32"
  have "1 \<le> k" "k \<le> 12" using assms(1,2) unfolding k_def by (auto split: if_splits)
  then have k: "k = 1 \<or> k = 2 \<or> k = 3 \<or> k = 4 \<or> k = 5 \<or> k = 6 \<or> k = 7
      \<or> k = 8 \<or> k = 9 \<or> k = 10 \<or> k = 11 \<or> k = 12" by (rule int_range_cases_1_12)
  have bounds: "32 * k \<le> n + 50" "n + 50 < 32 * k + 32" unfolding k_def by linarith+
  have md: "(m, d) =
     (let preceding = DAYS_BEFORE_MONTH ! nat k + (if k > 2 \<and> leap then 1 else 0);
          (m, preceding) =
            (if preceding > n
             then (k - 1,
                   preceding - (DAYS_IN_MONTH ! nat (k - 1)
                                 + (if k - 1 = 2 \<and> leap then 1 else 0)))
             else (k, preceding))
      in (m, n - preceding + 1))"
    using assms(3) unfolding ord2md_def k_def Let_def by simp
  from k show ?thesis
  proof (elim disjE)
    assume "k = 1" with bounds assms(1,2) md show ?thesis
      by (auto simp: DAYS_BEFORE_MONTH_def DAYS_IN_MONTH_def split: if_splits)
  next
    assume "k = 2" with bounds assms(1,2) md show ?thesis
      by (auto simp: DAYS_BEFORE_MONTH_def DAYS_IN_MONTH_def split: if_splits)
  next
    assume "k = 3" with bounds assms(1,2) md show ?thesis
      by (auto simp: DAYS_BEFORE_MONTH_def DAYS_IN_MONTH_def split: if_splits)
  next
    assume "k = 4" with bounds assms(1,2) md show ?thesis
      by (auto simp: DAYS_BEFORE_MONTH_def DAYS_IN_MONTH_def split: if_splits)
  next
    assume "k = 5" with bounds assms(1,2) md show ?thesis
      by (auto simp: DAYS_BEFORE_MONTH_def DAYS_IN_MONTH_def split: if_splits)
  next
    assume "k = 6" with bounds assms(1,2) md show ?thesis
      by (auto simp: DAYS_BEFORE_MONTH_def DAYS_IN_MONTH_def split: if_splits)
  next
    assume "k = 7" with bounds assms(1,2) md show ?thesis
      by (auto simp: DAYS_BEFORE_MONTH_def DAYS_IN_MONTH_def split: if_splits)
  next
    assume "k = 8" with bounds assms(1,2) md show ?thesis
      by (auto simp: DAYS_BEFORE_MONTH_def DAYS_IN_MONTH_def split: if_splits)
  next
    assume "k = 9" with bounds assms(1,2) md show ?thesis
      by (auto simp: DAYS_BEFORE_MONTH_def DAYS_IN_MONTH_def split: if_splits)
  next
    assume "k = 10" with bounds assms(1,2) md show ?thesis
      by (auto simp: DAYS_BEFORE_MONTH_def DAYS_IN_MONTH_def split: if_splits)
  next
    assume "k = 11" with bounds assms(1,2) md show ?thesis
      by (auto simp: DAYS_BEFORE_MONTH_def DAYS_IN_MONTH_def split: if_splits)
  next
    assume "k = 12" with bounds assms(1,2) md show ?thesis
      by (auto simp: DAYS_BEFORE_MONTH_def DAYS_IN_MONTH_def split: if_splits)
  qed
qed


lemma year_bound:
  fixes a b c e f :: int
  assumes "0 \<le> a" "0 \<le> b" "b \<le> 4" "0 \<le> c" "c \<le> 24" "0 \<le> e" "e \<le> 4" "0 \<le> f"
    and "146097 * a + 36524 * b + 1461 * c + 365 * e + f \<le> 3652058"
  shows "400 * a + 100 * b + 4 * c + e \<le> 9998"
proof (cases "a \<le> 23")
  case True
  with assms show ?thesis by linarith
next
  case False
  with assms have a: "a = 24" by linarith
  show ?thesis
  proof (cases "b \<le> 2")
    case True
    with a assms show ?thesis by linarith
  next
    case False
    with a assms have b: "b = 3" by linarith
    show ?thesis
    proof (cases "c \<le> 23")
      case True
      with a b assms show ?thesis by linarith
    next
      case False
      with assms have c: "c = 24" by linarith
      with a b assms have "e \<le> 2" by linarith
      with a b c show ?thesis by linarith
    qed
  qed
qed

lemma ord2ymd_correct:
  assumes "1 \<le> n" "n \<le> MAXORDINAL" "ord2ymd n = (y, m, d)"
  shows "1 \<le> y \<and> y \<le> 9999 \<and> 1 \<le> m \<and> m \<le> 12 \<and> 1 \<le> d \<and> d \<le> days_in_month y m
       \<and> ymd2ord y m d = n"
proof -
  define a where "a = (n - 1) div 146097"
  define r1 where "r1 = (n - 1) mod 146097"
  define b where "b = r1 div 36524"
  define r2 where "r2 = r1 mod 36524"
  define c where "c = r2 div 1461"
  define r3 where "r3 = r2 mod 1461"
  define e where "e = r3 div 365"
  define f where "f = r3 mod 365"
  define Y where "Y = a * 400 + 1 + (b * 100 + c * 4 + e)"
  have n1: "n - 1 = 146097 * a + r1" and r1: "0 \<le> r1" "r1 < 146097"
    unfolding a_def r1_def by simp_all
  have r1': "r1 = 36524 * b + r2" and r2: "0 \<le> r2" "r2 < 36524"
    unfolding b_def r2_def by simp_all
  have r2': "r2 = 1461 * c + r3" and r3: "0 \<le> r3" "r3 < 1461"
    unfolding c_def r3_def by simp_all
  have r3': "r3 = 365 * e + f" and f: "0 \<le> f" "f < 365"
    unfolding e_def f_def by simp_all
  have a0: "0 \<le> a" using n1 r1 assms(1) by linarith
  have b0: "0 \<le> b" "b \<le> 4" using r1' r1 r2 by linarith+
  have c0: "0 \<le> c" "c \<le> 24" using r2' r2 r3 by linarith+
  have e0: "0 \<le> e" "e \<le> 4" using r3' r3 f by linarith+
  have sum: "n - 1 = 146097 * a + 36524 * b + 1461 * c + 365 * e + f"
    using n1 r1' r2' r3' by linarith
  have Yb: "400 * a + 100 * b + 4 * c + e \<le> 9998"
    using a0 b0 c0 e0 f(1) sum assms(2) unfolding MAXORDINAL_def
    by (intro year_bound [of a b c e f]) linarith+
  have unfold: "ord2ymd n =
      (if e = 4 \<or> b = 4 then (Y - 1, 12, 31)
       else (Y, ord2md (e = 3 \<and> (c \<noteq> 24 \<or> b = 3)) f))"
    unfolding ord2ymd_def Let_def Y_def f_def e_def r3_def c_def r2_def b_def r1_def a_def
    by (rule refl)
  show ?thesis
  proof (cases "b = 4")
    case True
    with r1' r1 r2 have "r2 = 0" by linarith
    with r2' c0 r3 have "c = 0" "r3 = 0" by linarith+
    with r3' e0 f have "e = 0" "f = 0" by linarith+
    have res: "y = 400 * a + 400" "m = 12" "d = 31"
      using assms(3) unfold True \<open>c = 0\<close> \<open>e = 0\<close> by (simp_all add: Y_def)
    have yform: "400 * a + 400 = a * 400 + 1 + (3 * 100 + 24 * 4 + 3)" by simp
    have dby: "days_before_year (400 * a + 400) = a * 146097 + 145731"
      using days_before_year_cycles [of a 3 24 3] a0 unfolding yform by simp
    have leap: "is_leap (400 * a + 400)"
      using is_leap_cycles [of a 3 24 3] a0 unfolding yform by simp
    have "ymd2ord y m d = n"
      using sum True \<open>c = 0\<close> \<open>e = 0\<close> \<open>f = 0\<close> dby leap
      unfolding res ymd2ord_def days_before_month_def DAYS_BEFORE_MONTH_def by simp
    moreover have "days_in_month y m = 31"
      unfolding res days_in_month_def DAYS_IN_MONTH_def by simp
    moreover have "1 \<le> y" "y \<le> 9999"
      using a0 Yb True \<open>c = 0\<close> \<open>e = 0\<close> unfolding res by linarith+
    ultimately show ?thesis using res by simp
  next
    case b4: False
    with b0 have b3: "b \<le> 3" by linarith
    show ?thesis
    proof (cases "e = 4")
      case True
      with r3' r3 f have "f = 0" by linarith
      from True r2' r3' r2 f c0 have c23: "c \<le> 23" by linarith
      have res: "y = Y - 1" "m = 12" "d = 31"
        using assms(3) unfold True by simp_all
      have yform: "Y - 1 = a * 400 + 1 + (b * 100 + c * 4 + 3)"
        unfolding Y_def True by simp
      have dby: "days_before_year (Y - 1) = a * 146097 + b * 36524 + c * 1461 + 3 * 365"
        using days_before_year_cycles [of a b c 3] a0 b0 b3 c0 unfolding yform by simp
      have leap: "is_leap (Y - 1)"
        using is_leap_cycles [of a b c 3] a0 b0 b3 c0 c23 unfolding yform by simp
      have "ymd2ord y m d = n"
        using sum True \<open>f = 0\<close> dby leap
        unfolding res ymd2ord_def days_before_month_def DAYS_BEFORE_MONTH_def by simp
      moreover have "days_in_month y m = 31"
        unfolding res days_in_month_def DAYS_IN_MONTH_def by simp
      moreover have "1 \<le> y" "y \<le> 9999"
        using a0 b0 c0 Yb True unfolding res Y_def by linarith+
      ultimately show ?thesis using res by simp
    next
      case False
      with e0 have e3: "e \<le> 3" by linarith
      let ?leap = "e = 3 \<and> (c \<noteq> 24 \<or> b = 3)"
      have res: "y = Y" "ord2md ?leap f = (m, d)"
        using assms(3) unfold b4 False by simp_all
      have dby: "days_before_year Y = a * 146097 + b * 36524 + c * 1461 + e * 365"
        unfolding Y_def using days_before_year_cycles [of a b c e] a0 b0 b3 c0 e0 e3 by simp
      have leap: "is_leap Y = ?leap"
        unfolding Y_def using is_leap_cycles [of a b c e] a0 b0 b3 c0 e0 e3 by simp
      have "f < (if ?leap then 366 else 365)" using f by simp
      from ord2md_correct [OF f(1) this res(2)]
      have md: "1 \<le> m" "m \<le> 12" "1 \<le> d"
        "d \<le> (if m = 2 \<and> ?leap then 29 else DAYS_IN_MONTH ! nat m)"
        "DAYS_BEFORE_MONTH ! nat m + (if m > 2 \<and> ?leap then 1 else 0) + d = f + 1"
        by simp_all
      have "ymd2ord y m d = n"
        using sum dby md(5) unfolding res(1) ymd2ord_def days_before_month_def leap by linarith
      moreover have "d \<le> days_in_month y m"
        using md(4) unfolding res(1) days_in_month_def leap by simp
      moreover have "1 \<le> y" "y \<le> 9999"
        using a0 b0 c0 e0 Yb unfolding res Y_def by linarith+
      ultimately show ?thesis using md by simp
    qed
  qed
qed


text \<open>A valid date has a day number from 1 to \<open>MAXORDINAL\<close>.\<close>

lemma days_before_year_bounds:
  assumes "1 \<le> y" "y \<le> 9999"
  shows "0 \<le> days_before_year y"
    and "days_before_year y + (if is_leap y then 366 else 365) \<le> 3652059"
proof -
  define u where "u = y - 1"
  define q4 where "q4 = u div 4"
  define q100 where "q100 = u div 100"
  define q400 where "q400 = u div 400"
  have u: "0 \<le> u" "u \<le> 9998" using assms unfolding u_def by linarith+
  have q4: "4 * q4 \<le> u" "u < 4 * q4 + 4" unfolding q4_def by linarith+
  have q100: "100 * q100 \<le> u" "u < 100 * q100 + 100" unfolding q100_def by linarith+
  have q400: "400 * q400 \<le> u" "u < 400 * q400 + 400" unfolding q400_def by linarith+
  have dby: "days_before_year y = u * 365 + q4 - q100 + q400"
    unfolding days_before_year_def Let_def u_def q4_def q100_def q400_def by simp
  have q0: "0 \<le> q4" "0 \<le> q400" using u unfolding q4_def q400_def by simp_all
  show "0 \<le> days_before_year y" unfolding dby using u q0 q100 by linarith
  show "days_before_year y + (if is_leap y then 366 else 365) \<le> 3652059"
  proof (cases "u = 9998")
    case True
    then have "y = 9999" unfolding u_def by simp
    then show ?thesis unfolding days_before_year_def is_leap_def Let_def by simp
  next
    case False
    with u have "u \<le> 9997" by linarith
    then show ?thesis unfolding dby using u q4 q100 q400 by (simp split: if_splits; linarith)
  qed
qed

lemma days_before_month_bounds:
  assumes "1 \<le> m" "m \<le> 12"
  shows "0 \<le> days_before_month y m"
    and "days_before_month y m + days_in_month y m \<le> (if is_leap y then 366 else 365)"
proof -
  from assms have k: "m = 1 \<or> m = 2 \<or> m = 3 \<or> m = 4 \<or> m = 5 \<or> m = 6 \<or> m = 7
      \<or> m = 8 \<or> m = 9 \<or> m = 10 \<or> m = 11 \<or> m = 12" by (rule int_range_cases_1_12)
  then show "0 \<le> days_before_month y m"
    unfolding days_before_month_def DAYS_BEFORE_MONTH_def by auto
  from k show "days_before_month y m + days_in_month y m \<le> (if is_leap y then 366 else 365)"
    unfolding days_before_month_def days_in_month_def DAYS_BEFORE_MONTH_def DAYS_IN_MONTH_def
    by auto
qed

lemma toordinal_bounds:
  assumes "valid_date d"
  shows "1 \<le> toordinal d" and "toordinal d \<le> MAXORDINAL"
proof -
  from assms have y: "1 \<le> year d" "year d \<le> 9999" and m: "1 \<le> month d" "month d \<le> 12"
    and dd: "1 \<le> day d" "day d \<le> days_in_month (year d) (month d)"
    unfolding valid_date_def MINYEAR_def MAXYEAR_def by simp_all
  note yb = days_before_year_bounds [OF y]
  note bm = days_before_month_bounds [OF m, of "year d"]
  show "1 \<le> toordinal d" unfolding toordinal_def ymd2ord_def using yb(1) bm(1) dd(1) by linarith
  show "toordinal d \<le> MAXORDINAL" unfolding toordinal_def ymd2ord_def MAXORDINAL_def
    using yb(2) bm(2) dd(2) by (simp split: if_splits)
qed

text \<open>
  A year has 365 days, or 366 when it is a leap year, so the number of days before a year
  grows with the year.
\<close>

lemma div_step:
  fixes y k :: int
  assumes "0 < k"
  shows "y div k - (y - 1) div k = (if y mod k = 0 then 1 else 0)"
proof -
  define q where "q = y div k"
  define r where "r = y mod k"
  have y: "y = k * q + r" and r: "0 \<le> r" "r < k"
    unfolding q_def r_def using assms by simp_all
  show ?thesis
  proof (cases "r = 0")
    case True
    have "y - 1 = k * (q - 1) + (k - 1)" unfolding y True by (simp add: algebra_simps)
    then have "(y - 1) div k = (k * (q - 1) + (k - 1)) div k" by (rule arg_cong)
    also have "\<dots> = q - 1" using assms by (intro div_quot_rem(1)) simp_all
    finally show ?thesis using True unfolding q_def [symmetric] r_def [symmetric] by simp
  next
    case False
    have "y - 1 = k * q + (r - 1)" unfolding y by simp
    then have "(y - 1) div k = (k * q + (r - 1)) div k" by (rule arg_cong)
    also have "\<dots> = q" using r False by (intro div_quot_rem(1)) simp_all
    finally show ?thesis using False unfolding q_def [symmetric] r_def [symmetric] by simp
  qed
qed

lemma days_before_year_Suc:
  "days_before_year (y + 1) = days_before_year y + (if is_leap y then 366 else 365)"
proof -
  define a4 where "a4 = y div 4"
  define b4 where "b4 = (y - 1) div 4"
  define a100 where "a100 = y div 100"
  define b100 where "b100 = (y - 1) div 100"
  define a400 where "a400 = y div 400"
  define b400 where "b400 = (y - 1) div 400"
  have s4: "a4 - b4 = (if y mod 4 = 0 then 1 else 0)"
    unfolding a4_def b4_def by (rule div_step) simp
  have s100: "a100 - b100 = (if y mod 100 = 0 then 1 else 0)"
    unfolding a100_def b100_def by (rule div_step) simp
  have s400: "a400 - b400 = (if y mod 400 = 0 then 1 else 0)"
    unfolding a400_def b400_def by (rule div_step) simp
  have i1: "y mod 100 = 0 \<Longrightarrow> y mod 4 = 0"
    using mod_mod_cancel [of 4 100 y] by simp
  have i2: "y mod 400 = 0 \<Longrightarrow> y mod 100 = 0"
    using mod_mod_cancel [of 100 400 y] by simp
  have e1: "days_before_year (y + 1) = y * 365 + a4 - a100 + a400"
    unfolding days_before_year_def Let_def a4_def a100_def a400_def by simp
  have e2: "days_before_year y = (y - 1) * 365 + b4 - b100 + b400"
    unfolding days_before_year_def Let_def b4_def b100_def b400_def by simp
  have "(a4 - b4) - (a100 - b100) + (a400 - b400) = (if is_leap y then 1 else 0)"
  proof (cases "y mod 400 = 0")
    case True
    with i2 have "y mod 100 = 0" by blast
    with i1 have "y mod 4 = 0" by blast
    with True \<open>y mod 100 = 0\<close> show ?thesis unfolding s4 s100 s400 is_leap_def by simp
  next
    case n400: False
    show ?thesis
    proof (cases "y mod 100 = 0")
      case True
      with i1 have "y mod 4 = 0" by blast
      with True n400 show ?thesis unfolding s4 s100 s400 is_leap_def by simp
    next
      case False
      with n400 show ?thesis unfolding s4 s100 s400 is_leap_def by simp
    qed
  qed
  then have "a4 - a100 + a400 = b4 - b100 + b400 + (if is_leap y then 1 else 0)" by linarith
  then show ?thesis unfolding e1 e2 by (cases "is_leap y") (simp_all add: algebra_simps)
qed

lemma days_before_year_mono:
  assumes "y \<le> y'"
  shows "days_before_year y \<le> days_before_year y'"
proof -
  have "days_before_year y \<le> days_before_year (y + int n)" for n
  proof (induction n)
    case 0
    show ?case by simp
  next
    case (Suc n)
    have "y + int (Suc n) = y + int n + 1" by simp
    then have "days_before_year (y + int (Suc n)) = days_before_year (y + int n + 1)"
      by (rule arg_cong)
    also have "\<dots> = days_before_year (y + int n) + (if is_leap (y + int n) then 366 else 365)"
      by (rule days_before_year_Suc)
    finally have "days_before_year (y + int n) \<le> days_before_year (y + int (Suc n))" by simp
    with Suc show ?case by linarith
  qed
  from this [of "nat (y' - y)"] assms show ?thesis by simp
qed

lemma days_before_month_step:
  assumes "1 \<le> m" "m < m'" "m' \<le> 12"
  shows "days_before_month y m + days_in_month y m \<le> days_before_month y m'"
proof -
  from assms have m: "1 \<le> m" "m \<le> 12" and m': "1 \<le> m'" "m' \<le> 12" by simp_all
  from int_range_cases_1_12 [OF m] int_range_cases_1_12 [OF m'] assms(2)
  show ?thesis
    unfolding days_before_month_def days_in_month_def DAYS_BEFORE_MONTH_def DAYS_IN_MONTH_def
    by (elim disjE) simp_all
qed

text \<open>The order of dates is the order of their day numbers.\<close>

lemma date_lt_toordinal:
  assumes "valid_date a" "valid_date b"
  shows "date_lt a b \<longleftrightarrow> toordinal a < toordinal b"
proof -
  from assms(1) have ma: "1 \<le> month a" "month a \<le> 12" and da: "1 \<le> day a"
    "day a \<le> days_in_month (year a) (month a)" unfolding valid_date_def by simp_all
  from assms(2) have mb: "1 \<le> month b" "month b \<le> 12" and db: "1 \<le> day b"
    "day b \<le> days_in_month (year b) (month b)" unfolding valid_date_def by simp_all
  have less: "toordinal p < toordinal q"
    if p: "1 \<le> month p" "month p \<le> 12" "1 \<le> day p" "day p \<le> days_in_month (year p) (month p)"
    and q: "1 \<le> month q" "month q \<le> 12" "1 \<le> day q" "day q \<le> days_in_month (year q) (month q)"
    and lt: "date_lt p q" for p q
  proof -
    consider (y) "year p < year q" | (m) "year p = year q" "month p < month q"
      | (d) "year p = year q" "month p = month q" "day p < day q"
      using lt unfolding date_lt_def by blast
    then show ?thesis
    proof cases
      case y
      have "toordinal p \<le> days_before_year (year p) + (if is_leap (year p) then 366 else 365)"
        unfolding toordinal_def ymd2ord_def
        using days_before_month_bounds(2) [OF p(1,2), of "year p"] p(4) by (simp split: if_splits)
      also have "\<dots> = days_before_year (year p + 1)" by (simp add: days_before_year_Suc)
      also have "\<dots> \<le> days_before_year (year q)" using y by (intro days_before_year_mono) simp
      also have "\<dots> < toordinal q"
        unfolding toordinal_def ymd2ord_def
        using days_before_month_bounds(1) [OF q(1,2), of "year q"] q(3) by simp
      finally show ?thesis .
    next
      case m
      from days_before_month_step [OF p(1) m(2) q(2), of "year p"] p(4) q(3) m(1)
      show ?thesis unfolding toordinal_def ymd2ord_def by simp
    next
      case d
      then show ?thesis unfolding toordinal_def ymd2ord_def by simp
    qed
  qed
  show ?thesis
  proof
    assume "date_lt a b"
    from less [OF ma da mb db this] show "toordinal a < toordinal b" .
  next
    assume lt: "toordinal a < toordinal b"
    show "date_lt a b"
    proof (rule ccontr)
      assume n: "\<not> date_lt a b"
      have "a = b \<or> date_lt b a"
      proof -
        have "year a = year b \<and> month a = month b \<and> day a = day b \<or> date_lt b a"
          using n unfolding date_lt_def by auto
        then show ?thesis by auto
      qed
      then show False
      proof
        assume "a = b" with lt show False by simp
      next
        assume "date_lt b a"
        from less [OF mb db ma da this] lt show False by simp
      qed
    qed
  qed
qed

text \<open>What the constructor returns is a valid date with the fields it was given.\<close>

lemma date_new_valid: "date_new y m d = Inr x \<Longrightarrow> valid_date x \<and> year x = y \<and> month x = m \<and> day x = d"
  unfolding date_new_def valid_date_def by (auto split: if_splits)

lemma date_new_error: "date_new y m d = Inl e \<Longrightarrow> e = ValueError"
  unfolding date_new_def by (auto split: if_splits)

lemma fromordinal_correct:
  assumes "1 \<le> n" "n \<le> MAXORDINAL"
  shows "\<exists>x. fromordinal n = Inr x \<and> valid_date x \<and> toordinal x = n"
proof -
  obtain y m d where ymd: "ord2ymd n = (y, m, d)" by (cases "ord2ymd n") auto
  from ord2ymd_correct [OF assms ymd]
  have ok: "1 \<le> y" "y \<le> 9999" "1 \<le> m" "m \<le> 12" "1 \<le> d" "d \<le> days_in_month y m"
    "ymd2ord y m d = n" by simp_all
  then have "date_new y m d = Inr \<lparr>year = y, month = m, day = d\<rparr>"
    unfolding date_new_def MINYEAR_def MAXYEAR_def by simp
  with ok ymd show ?thesis
    unfolding fromordinal_def toordinal_def valid_date_def MINYEAR_def MAXYEAR_def by simp
qed

lemma date_add_days_correct:
  assumes "valid_date d" "0 \<le> k" "toordinal d + k \<le> MAXORDINAL"
  shows "\<exists>x. date_add_days d k = Inr x \<and> valid_date x \<and> toordinal x = toordinal d + k"
proof -
  from toordinal_bounds(1) [OF assms(1)] assms(2) have "1 \<le> toordinal d + k" by linarith
  from fromordinal_correct [OF this assms(3)] show ?thesis
    unfolding date_add_days_def Let_def using \<open>1 \<le> toordinal d + k\<close> assms(3) by simp
qed

text \<open>
  On a valid date the weekend adjustment always returns: a Saturday or Sunday of the
  calendar is at least two days before its last day, 31 December 9999, a Friday.
\<close>

lemma adjust_for_weekend_correct:
  assumes "valid_date c"
  shows "\<exists>cd. adjust_for_weekend c = Inr cd \<and> valid_date cd
           \<and> toordinal cd = toordinal c + (if weekday c = 5 then 2 else if weekday c = 6 then 1 else 0)
           \<and> weekday cd \<noteq> 5 \<and> weekday cd \<noteq> 6"
proof -
  define t where "t = toordinal c"
  have t: "1 \<le> t" "t \<le> 3652059"
    using toordinal_bounds [OF assms] unfolding t_def MAXORDINAL_def by simp_all
  have wd: "weekday c = (t + 6) mod 7" unfolding weekday_def t_def by simp
  consider (sat) "weekday c = 5" | (sun) "weekday c = 6" | (other) "weekday c \<noteq> 5" "weekday c \<noteq> 6"
    by blast
  then show ?thesis
  proof cases
    case sat
    with wd t have "t + 2 \<le> 3652059" by presburger
    then have "toordinal c + 2 \<le> MAXORDINAL" unfolding t_def MAXORDINAL_def by simp
    from date_add_days_correct [OF assms _ this]
    obtain x where x: "date_add_days c 2 = Inr x" "valid_date x" "toordinal x = toordinal c + 2"
      by auto
    have "weekday x = 0" using sat x(3) wd unfolding weekday_def t_def by presburger
    with sat x show ?thesis
      unfolding adjust_for_weekend_def WEEKEND_DAYS_def DAYS_IN_WEEK_def by simp
  next
    case sun
    with wd t have "t + 1 \<le> 3652059" by presburger
    then have "toordinal c + 1 \<le> MAXORDINAL" unfolding t_def MAXORDINAL_def by simp
    from date_add_days_correct [OF assms _ this]
    obtain x where x: "date_add_days c 1 = Inr x" "valid_date x" "toordinal x = toordinal c + 1"
      by auto
    have "weekday x = 0" using sun x(3) wd unfolding weekday_def t_def by presburger
    with sun x show ?thesis
      unfolding adjust_for_weekend_def WEEKEND_DAYS_def DAYS_IN_WEEK_def by simp
  next
    case other
    with assms show ?thesis
      unfolding adjust_for_weekend_def WEEKEND_DAYS_def DAYS_IN_WEEK_def by simp
  qed
qed


section \<open>Phones\<close>

lemma isdecimal_imp_isnumeric_char: "isdecimal_char c \<Longrightarrow> isnumeric_char c"
  by (simp add: isdecimal_char_def isnumeric_char_def Let_def)

lemma ten_decimal_digits_valid: "ten_decimal_digits p \<Longrightarrow> is_phone_valid p"
  unfolding ten_decimal_digits_def is_phone_valid_def isnumeric_def
  by (auto simp: list_all_iff isdecimal_imp_isnumeric_char)

lemma add_phone_phones:
  "phones (fst (add_phone r p)) = (if is_phone_valid p then phones r @ [Phone p] else phones r)"
  by (simp add: add_phone_def Let_def)

lemma add_phone_message:
  "snd (add_phone r p) =
     (if is_phone_valid p \<or> phones r \<noteq> [] then ''The phone is added successfully''
      else ''Phone '' @ p @ '' was not added, it should be 10 digits long and numeric'')"
  by (simp add: add_phone_def Let_def)

lemma find_phone_loop_append:
  "find_phone_loop (ps @ [Phone p]) p = Some (Phone p)"
  by (induction ps) auto

lemma find_phone_loop_Some:
  "find_phone_loop ps p = Some ph \<Longrightarrow> ph \<in> set ps \<and> phone_value ph = p"
  by (induction ps) (auto split: if_splits)

lemma find_phone_loop_None:
  "find_phone_loop ps p = None \<longleftrightarrow> p \<notin> phone_value ` set ps"
  by (induction ps) auto

lemma edit_phone_loop_absent:
  "old \<notin> phone_value ` set ps \<Longrightarrow> edit_phone_loop ps old new = ps"
  by (induction ps) auto

lemma edit_phone_loop_present:
  "old \<in> phone_value ` set ps \<Longrightarrow>
   \<exists>i < length ps. phone_value (ps ! i) = old \<and> (\<forall>j < i. phone_value (ps ! j) \<noteq> old)
     \<and> edit_phone_loop ps old new = ps[i := Phone new]"
proof (induction ps)
  case Nil
  then show ?case by simp
next
  case (Cons p ps)
  show ?case
  proof (cases "phone_value p = old")
    case True
    then have "phone_value ((p # ps) ! 0) = old \<and> (\<forall>j < 0. phone_value ((p # ps) ! j) \<noteq> old)
        \<and> edit_phone_loop (p # ps) old new = (p # ps)[0 := Phone new]" by simp
    then show ?thesis by blast
  next
    case False
    with Cons.prems have "old \<in> phone_value ` set ps" by auto
    from Cons.IH [OF this] obtain i where i: "i < length ps" "phone_value (ps ! i) = old"
      "\<forall>j < i. phone_value (ps ! j) \<noteq> old" "edit_phone_loop ps old new = ps[i := Phone new]"
      by blast
    have "\<forall>j < Suc i. phone_value ((p # ps) ! j) \<noteq> old"
      using False i(3) by (auto simp: nth_Cons split: nat.splits)
    with i False have "Suc i < length (p # ps) \<and> phone_value ((p # ps) ! Suc i) = old
        \<and> (\<forall>j < Suc i. phone_value ((p # ps) ! j) \<noteq> old)
        \<and> edit_phone_loop (p # ps) old new = (p # ps)[Suc i := Phone new]" by simp
    then show ?thesis by blast
  qed
qed

lemma edit_phone_phones:
  "phones (edit_phone r old new) =
     (if is_phone_valid new then edit_phone_loop (phones r) old new else phones r)"
  by (simp add: edit_phone_def)

lemma set_remove_phone_loop: "set (remove_phone_loop ps p) \<subseteq> set ps"
  by (induction ps) auto

lemma set_edit_phone_loop: "set (edit_phone_loop ps old new) \<subseteq> insert (Phone new) (set ps)"
  by (induction ps) auto

lemma phones_valid_init: "phones_valid (Record_init n b)"
  by (simp add: phones_valid_def Record_init_def)

lemma phones_valid_add_phone: "phones_valid r \<Longrightarrow> phones_valid (fst (add_phone r p))"
  by (auto simp: phones_valid_def add_phone_phones)

lemma phones_valid_remove_phone: "phones_valid r \<Longrightarrow> phones_valid (remove_phone r p)"
  using set_remove_phone_loop by (fastforce simp: phones_valid_def remove_phone_def)

lemma phones_valid_edit_phone: "phones_valid r \<Longrightarrow> phones_valid (edit_phone r old new)"
  using set_edit_phone_loop [of "phones r" old new]
  by (auto simp: phones_valid_def edit_phone_def)

text \<open>
  Claim C9: for every string \<open>p\<close> of exactly ten decimal digits and every record, after
  \<open>add_phone\<close> with \<open>p\<close> the search \<open>find_phone\<close> for \<open>p\<close> returns a stored phone whose value
  is \<open>p\<close>, never \<open>None\<close>.
\<close>

theorem add_phone_then_find_phone:
  "ten_decimal_digits p \<Longrightarrow> find_phone (fst (add_phone r p)) p = Some (Phone p)"
  by (simp add: find_phone_def add_phone_phones ten_decimal_digits_valid find_phone_loop_append)

theorem add_phone_then_find_phone_witness:
  "ten_decimal_digits ''1234567890'' \<and>
   find_phone (fst (add_phone (Record_init ''John'' None) ''1234567890'')) ''1234567890''
     = Some (Phone ''1234567890'')"
proof -
  have h: "ten_decimal_digits ''1234567890''"
    by (simp add: ten_decimal_digits_def isdecimal_char_def)
  show ?thesis using h add_phone_then_find_phone [OF h, of "Record_init ''John'' None"] by simp
qed

text \<open>
  Claim C1 says that \<open>add_phone\<close> with a string that is not ten decimal digits leaves the
  phones unchanged and reports failure, whatever phones the record already holds. The
  program evaluated on a record without phones and on a record with one phone: the same
  rejected value \<open>abc\<close> is reported as a failure in the first call and as a success in the
  second, the list of phones being unchanged in both.
\<close>

theorem add_phone_reports_success_for_invalid:
  "\<not> ten_decimal_digits ''abc''
   \<and> add_phone (Record_init ''John'' None) ''abc''
       = (\<lparr>name = Name ''John'', phones = [], birthday = None\<rparr>,
          ''Phone abc was not added, it should be 10 digits long and numeric'')
   \<and> add_phone (fst (add_phone (Record_init ''John'' None) ''1234567890'')) ''abc''
       = (\<lparr>name = Name ''John'', phones = [Phone ''1234567890''], birthday = None\<rparr>,
          ''The phone is added successfully'')"
  by (simp add: ten_decimal_digits_def add_phone_def Record_init_def is_phone_valid_def
      isnumeric_def isnumeric_char_def)

text \<open>
  Claim C6 says that every stored phone is a string of exactly ten decimal digits. The
  program evaluated on ten times the character U+00BD (the fraction one half): the string
  is not ten decimal digits, and \<open>add_phone\<close> stores it in a new record.
\<close>

theorem add_phone_stores_non_digits:
  "\<not> ten_decimal_digits (replicate 10 (CHR 0xBD))
   \<and> phones (fst (add_phone (Record_init ''John'' None) (replicate 10 (CHR 0xBD))))
       = [Phone (replicate 10 (CHR 0xBD))]"
  by code_simp

text \<open>
  Claim C4 says that \<open>edit_phone\<close> leaves the phones unchanged when the new value is not
  exactly ten decimal digits. The program evaluated on a record holding \<open>1234567890\<close> and on
  ten times the character U+00BD as the new value: the stored phone is replaced.
\<close>

theorem edit_phone_accepts_non_digits:
  "\<not> ten_decimal_digits (replicate 10 (CHR 0xBD))
   \<and> phones (fst (add_phone (Record_init ''John'' None) ''1234567890'')) = [Phone ''1234567890'']
   \<and> phones (edit_phone (fst (add_phone (Record_init ''John'' None) ''1234567890''))
               ''1234567890'' (replicate 10 (CHR 0xBD)))
       = [Phone (replicate 10 (CHR 0xBD))]"
  by code_simp

section \<open>Ledger\<close>

lemma dict_get_set: "dict_get (dict_set kvs k v) k = Some v"
  by (induction kvs) auto

lemma dict_set_keys:
  "map fst (dict_set kvs k v) = (if k \<in> set (map fst kvs) then map fst kvs else map fst kvs @ [k])"
proof (induction kvs)
  case Nil
  show ?case by simp
next
  case (Cons kv kvs)
  obtain k' v' where kv: "kv = (k', v')" by (cases kv)
  show ?case
  proof (cases "k' = k")
    case True
    with kv show ?thesis by simp
  next
    case False
    with kv Cons.IH show ?thesis by simp
  qed
qed

lemma dict_ok_set: "dict_ok kvs \<Longrightarrow> dict_ok (dict_set kvs k v)"
  unfolding dict_ok_def dict_set_keys by simp

lemma dict_get_None: "dict_get kvs k = None \<longleftrightarrow> k \<notin> set (map fst kvs)"
proof (induction kvs)
  case Nil
  show ?case by simp
next
  case (Cons kv kvs)
  obtain k' v' where kv: "kv = (k', v')" by (cases kv)
  show ?case
  proof (cases "k' = k")
    case True
    with kv show ?thesis by simp
  next
    case False
    with kv Cons.IH show ?thesis by simp
  qed
qed

lemma dict_get_Some: "dict_ok kvs \<Longrightarrow> (k, v) \<in> set kvs \<Longrightarrow> dict_get kvs k = Some v"
proof (induction kvs)
  case Nil
  then show ?case by simp
next
  case (Cons kv kvs)
  obtain k' v' where kv: "kv = (k', v')" by (cases kv)
  show ?case
  proof (cases "k' = k")
    case True
    with Cons.prems kv have "k \<notin> set (map fst kvs)" by (simp add: dict_ok_def)
    then have "(k, v) \<notin> set kvs" by force
    with Cons.prems kv True show ?thesis by simp
  next
    case False
    with Cons kv show ?thesis by (simp add: dict_ok_def)
  qed
qed

lemma filter_key_absent: "k \<notin> set (map fst kvs) \<Longrightarrow> filter (\<lambda>kv. fst kv = k) kvs = []"
  by (induction kvs) auto

lemma dict_ok_count:
  "dict_ok kvs \<Longrightarrow> k \<in> set (map fst kvs) \<Longrightarrow> length (filter (\<lambda>kv. fst kv = k) kvs) = 1"
proof (induction kvs)
  case Nil
  then show ?case by simp
next
  case (Cons kv kvs)
  show ?case
  proof (cases "fst kv = k")
    case True
    with Cons.prems have "k \<notin> set (map fst kvs)" by (simp add: dict_ok_def)
    with True show ?thesis by (simp add: filter_key_absent)
  next
    case False
    with Cons show ?thesis by (simp add: dict_ok_def)
  qed
qed

lemma dict_set_mem: "k \<in> set (map fst (dict_set kvs k v))"
  unfolding dict_set_keys by simp

lemma dict_get_mem: "dict_get kvs k = Some v \<Longrightarrow> (k, v) \<in> set kvs"
  by (induction kvs) (auto split: if_splits)

lemma dict_get_keys:
  assumes "dict_ok d"
  shows "map (dict_get d) (map fst d) = map (\<lambda>kv. Some (snd kv)) d"
proof -
  have "\<And>kv. kv \<in> set d \<Longrightarrow> dict_get d (fst kv) = Some (snd kv)"
    using dict_get_Some [OF assms] by (metis prod.collapse)
  then show ?thesis by simp
qed

text \<open>The operations of the book keep its dictionary well-formed.\<close>

lemma dict_pop_subset: "set (dict_pop kvs k) \<subseteq> set kvs"
  by (induction kvs) (auto split: if_splits)

lemma dict_pop_keys: "set (map fst (dict_pop kvs k)) \<subseteq> set (map fst kvs)"
  using dict_pop_subset [of kvs k] by auto

lemma dict_ok_pop: "dict_ok kvs \<Longrightarrow> dict_ok (dict_pop kvs k)"
proof (induction kvs)
  case Nil
  then show ?case by (simp add: dict_ok_def)
next
  case (Cons kv kvs)
  obtain k' v' where kv: "kv = (k', v')" by (cases kv)
  from Cons.prems kv have tl: "dict_ok kvs" and hd: "k' \<notin> set (map fst kvs)"
    by (simp_all add: dict_ok_def)
  show ?case
  proof (cases "k' = k")
    case True
    with kv tl show ?thesis by simp
  next
    case False
    from hd dict_pop_keys [of kvs k] have "k' \<notin> set (map fst (dict_pop kvs k))" by blast
    with False kv Cons.IH [OF tl] show ?thesis by (simp add: dict_ok_def)
  qed
qed

lemma dict_ok_init: "dict_ok (data AddressBook_init)"
  by (simp add: AddressBook_init_def dict_ok_def)

lemma dict_ok_add_record: "dict_ok (data book) \<Longrightarrow> dict_ok (data (add_record book r))"
  by (simp add: add_record_def dict_ok_set)

lemma dict_ok_delete: "dict_ok (data book) \<Longrightarrow> dict_ok (data (delete book n))"
  by (simp add: delete_def dict_ok_pop)

text \<open>
  Claim C7: in every address book, adding two records of the same name one after the other
  leaves exactly one entry under that name, and looking the name up returns the second
  record; for a name that is not a key of the book, the look-up returns \<open>None\<close> and
  \<open>delete\<close> changes nothing.
\<close>

theorem add_record_overwrites:
  assumes "dict_ok (data book)"
  shows "(name r1 = name r2 \<longrightarrow>
            length (filter (\<lambda>kv. fst kv = name_value (name r2))
                      (data (add_record (add_record book r1) r2))) = 1
            \<and> find_record (add_record (add_record book r1) r2) (name_value (name r2)) = Some r2)
       \<and> (n \<notin> set (map fst (data book)) \<longrightarrow> find_record book n = None \<and> delete book n = book)"
proof -
  have ok: "dict_ok (data (add_record (add_record book r1) r2))"
    using assms by (simp add: add_record_def dict_ok_set)
  have "name_value (name r2) \<in> set (map fst (data (add_record (add_record book r1) r2)))"
    unfolding add_record_def using dict_set_mem by simp
  from dict_ok_count [OF ok this]
  have one: "length (filter (\<lambda>kv. fst kv = name_value (name r2))
                      (data (add_record (add_record book r1) r2))) = 1" .
  have found: "find_record (add_record (add_record book r1) r2) (name_value (name r2)) = Some r2"
    by (simp add: find_record_def add_record_def dict_get_set)
  have absent: "n \<notin> set (map fst (data book)) \<Longrightarrow> find_record book n = None \<and> delete book n = book"
    by (simp add: find_record_def delete_def dict_contains_def dict_get_None)
  from one found absent show ?thesis by blast
qed

theorem add_record_overwrites_witness:
  "dict_ok (data \<lparr>data = [(''Jane'', Record_init ''Jane'' None)]\<rparr>)
   \<and> name (Record_init ''John'' None) = name (fst (add_phone (Record_init ''John'' None) ''1234567890''))
   \<and> ''Bob'' \<notin> set (map fst (data \<lparr>data = [(''Jane'', Record_init ''Jane'' None)]\<rparr>))
   \<and> length (filter (\<lambda>kv. fst kv = ''John'')
        (data (add_record (add_record \<lparr>data = [(''Jane'', Record_init ''Jane'' None)]\<rparr>
                 (Record_init ''John'' None))
                 (fst (add_phone (Record_init ''John'' None) ''1234567890''))))) = 1
   \<and> find_record (add_record (add_record \<lparr>data = [(''Jane'', Record_init ''Jane'' None)]\<rparr>
                 (Record_init ''John'' None))
                 (fst (add_phone (Record_init ''John'' None) ''1234567890''))) ''John''
       = Some \<lparr>name = Name ''John'', phones = [Phone ''1234567890''], birthday = None\<rparr>
   \<and> find_record \<lparr>data = [(''Jane'', Record_init ''Jane'' None)]\<rparr> ''Bob'' = None
   \<and> delete \<lparr>data = [(''Jane'', Record_init ''Jane'' None)]\<rparr> ''Bob''
       = \<lparr>data = [(''Jane'', Record_init ''Jane'' None)]\<rparr>"
proof -
  let ?book = "\<lparr>data = [(''Jane'', Record_init ''Jane'' None)]\<rparr>"
  let ?r1 = "Record_init ''John'' None"
  let ?r2 = "fst (add_phone (Record_init ''John'' None) ''1234567890'')"
  have h1: "dict_ok (data ?book)" by (simp add: dict_ok_def)
  have h2: "name ?r1 = name ?r2" by (simp add: add_phone_def Record_init_def Let_def)
  have h3: "''Bob'' \<notin> set (map fst (data ?book))" by simp
  have r2: "?r2 = \<lparr>name = Name ''John'', phones = [Phone ''1234567890''], birthday = None\<rparr>"
    by (simp add: add_phone_def Record_init_def is_phone_valid_def isnumeric_def isnumeric_char_def)
  have n2: "name_value (name ?r2) = ''John''" unfolding r2 by simp
  from add_record_overwrites [OF h1, of ?r1 ?r2 "''Bob''"] h2 h3
  show ?thesis using h1 unfolding n2 r2 by simp
qed

section \<open>Birthdays\<close>

text \<open>
  Parsing inverts formatting: a valid date from the year 1000 on, formatted with
  \<open>DATE_FORMAT\<close>, is parsed back to the same date at midnight.
\<close>

lemma of_char_digit_char: "k < 10 \<Longrightarrow> (of_char (digit_char k) :: nat) = 48 + k"
  by (simp add: digit_char_def)

lemma isdecimal_digit_char: "k < 10 \<Longrightarrow> isdecimal_char (digit_char k)"
  by (simp add: isdecimal_char_def of_char_digit_char)

lemma int_digits_snoc:
  "int_digits (cs @ [c]) acc =
     (case int_digits cs acc of
        None \<Rightarrow> None
      | Some v \<Rightarrow> if isdecimal_char c then Some (v * 10 + (int (of_char c) - 48)) else None)"
  by (induction cs arbitrary: acc) auto

lemma int_digits_str_nat: "int_digits (str_nat n) 0 = Some (int n)"
proof (induction n rule: str_nat.induct)
  case (1 n)
  show ?case
  proof (cases "n < 10")
    case True
    then show ?thesis
      by (subst str_nat.simps) (simp add: isdecimal_digit_char of_char_digit_char)
  next
    case False
    with 1 have IH: "int_digits (str_nat (n div 10)) 0 = Some (int (n div 10))" by simp
    have m: "n mod 10 < 10" by simp
    have "int (n div 10) * 10 + int (n mod 10) = int n"
      by (metis mult.commute of_nat_add of_nat_mult of_nat_numeral div_mult_mod_eq)
    with False IH show ?thesis
      by (subst str_nat.simps)
         (simp add: int_digits_snoc isdecimal_digit_char [OF m] of_char_digit_char [OF m])
  qed
qed

lemma str_nat_decimal: "list_all isdecimal_char (str_nat n)"
proof (induction n rule: str_nat.induct)
  case (1 n)
  show ?case
  proof (cases "n < 10")
    case True
    then show ?thesis by (subst str_nat.simps) (simp add: isdecimal_digit_char)
  next
    case False
    with 1 show ?thesis by (subst str_nat.simps) (simp add: isdecimal_digit_char)
  qed
qed

lemma str_nat_not_Nil: "str_nat n \<noteq> []"
  by (subst str_nat.simps) simp

lemma str_nat_length4:
  assumes "1000 \<le> n" "n \<le> 9999"
  shows "length (str_nat n) = 4"
proof -
  have a: "\<not> n < 10" "\<not> n div 10 < 10" "\<not> n div 10 div 10 < 10" "n div 10 div 10 div 10 < 10"
    using assms by simp_all
  show ?thesis
    by (subst str_nat.simps, simp only: a if_False, subst str_nat.simps, simp only: a if_False,
        subst str_nat.simps, simp only: a if_False, subst str_nat.simps, simp only: a if_True) simp
qed

lemma decimal_not_blank: "isdecimal_char c \<Longrightarrow> c \<noteq> CHR '' ''"
  by (auto simp: isdecimal_char_def)

lemma py_int_str_nat: "py_int (str_nat n) = Some (int n)"
proof -
  obtain c cs where cs: "str_nat n = c # cs" using str_nat_not_Nil by (cases "str_nat n") auto
  with str_nat_decimal [of n] have "c \<noteq> CHR '' ''" by (simp add: decimal_not_blank)
  with cs have "dropWhile (\<lambda>c. c = CHR '' '') (str_nat n) = str_nat n" by simp
  then show ?thesis using str_nat_not_Nil int_digits_str_nat by (simp add: py_int_def)
qed


lemma digit_char_values:
  "digit_char 0 = CHR ''0''" "digit_char 1 = CHR ''1''" "digit_char (Suc 0) = CHR ''1''"
  "digit_char 2 = CHR ''2''" "digit_char 3 = CHR ''3''" "digit_char 4 = CHR ''4''"
  "digit_char 5 = CHR ''5''" "digit_char 6 = CHR ''6''" "digit_char 7 = CHR ''7''"
  "digit_char 8 = CHR ''8''" "digit_char 9 = CHR ''9''"
  by code_simp+

lemma int_range_cases_1_31:
  fixes k :: int
  assumes "1 \<le> k" "k \<le> 31"
  shows "k = 1 \<or> k = 2 \<or> k = 3 \<or> k = 4 \<or> k = 5 \<or> k = 6 \<or> k = 7 \<or> k = 8 \<or> k = 9 \<or> k = 10
      \<or> k = 11 \<or> k = 12 \<or> k = 13 \<or> k = 14 \<or> k = 15 \<or> k = 16 \<or> k = 17 \<or> k = 18 \<or> k = 19
      \<or> k = 20 \<or> k = 21 \<or> k = 22 \<or> k = 23 \<or> k = 24 \<or> k = 25 \<or> k = 26 \<or> k = 27 \<or> k = 28
      \<or> k = 29 \<or> k = 30 \<or> k = 31"
  using assms by presburger

text \<open>
  The group \<open>d\<close> on a day printed in two digits and followed by a dot: of all the ways the
  group can match, exactly one leaves a dot in front, the one that takes both digits.
\<close>

lemma re_d_two_digits:
  assumes "1 \<le> dd" "dd \<le> 31"
  shows "concat (map (\<lambda>(d, r1). concat (map (F d) (re_dot r1)))
                  (re_d (zero_pad 2 dd @ CHR ''.'' # R)))
         = F (zero_pad 2 dd) R"
  using int_range_cases_1_31 [OF assms]
  by (elim disjE)
     (simp_all add: zero_pad_def str_nat.simps digit_char_values re_d_def re_dot_def
        digit19_def isdecimal_char_def)

lemma re_m_two_digits:
  assumes "1 \<le> mm" "mm \<le> 12"
  shows "concat (map (\<lambda>(m, r3). concat (map (F m) (re_dot r3)))
                  (re_m (zero_pad 2 mm @ CHR ''.'' # R)))
         = F (zero_pad 2 mm) R"
  using int_range_cases_1_12 [OF assms]
  by (elim disjE)
     (simp_all add: zero_pad_def str_nat.simps digit_char_values re_m_def re_dot_def
        digit19_def isdecimal_char_def)

lemma py_int_two_digits:
  assumes "1 \<le> dd" "dd \<le> 31"
  shows "py_int (zero_pad 2 dd) = Some dd"
  using int_range_cases_1_31 [OF assms]
  by (elim disjE)
     (simp_all add: zero_pad_def str_nat.simps digit_char_values py_int_def isdecimal_char_def)

lemma zero_pad_year:
  assumes "1000 \<le> y" "y \<le> 9999"
  shows "zero_pad 1 y = str_nat (nat y)"
  using assms str_nat_length4 [of "nat y"] by (simp add: zero_pad_def)

lemma re_Y_year:
  assumes "1000 \<le> y" "y \<le> 9999"
  shows "re_Y (zero_pad 1 y) = [(zero_pad 1 y, [])]"
proof -
  from assms have len: "length (str_nat (nat y)) = 4" by (simp add: str_nat_length4)
  then obtain a b c d where abcd: "str_nat (nat y) = [a, b, c, d]"
    by (auto simp: length_Suc_conv numeral_eq_Suc)
  with str_nat_decimal [of "nat y"] show ?thesis
    unfolding zero_pad_year [OF assms] by (simp add: re_Y_def)
qed


lemma valid_day_bounds:
  assumes "valid_date d"
  shows "1 \<le> day d" "day d \<le> 31" "1 \<le> month d" "month d \<le> 12"
proof -
  from assms have m: "1 \<le> month d" "month d \<le> 12" and dd: "1 \<le> day d"
    "day d \<le> days_in_month (year d) (month d)" unfolding valid_date_def by simp_all
  from int_range_cases_1_12 [OF m] have "days_in_month (year d) (month d) \<le> 31"
    unfolding days_in_month_def DAYS_IN_MONTH_def by auto
  with dd m show "1 \<le> day d" "day d \<le> 31" "1 \<le> month d" "month d \<le> 12" by simp_all
qed

lemma format_regex_match_strftime:
  assumes "valid_date d" "1000 \<le> year d"
  shows "format_regex_match (strftime_DATE_FORMAT d)
         = Some ((zero_pad 2 (day d), zero_pad 2 (month d), zero_pad 1 (year d)), [])"
proof -
  note b = valid_day_bounds [OF assms(1)]
  from assms have y: "1000 \<le> year d" "year d \<le> 9999"
    unfolding valid_date_def MAXYEAR_def by simp_all
  define D where "D = zero_pad 2 (day d)"
  define M where "M = zero_pad 2 (month d)"
  define Y where "Y = zero_pad 1 (year d)"
  have s: "strftime_DATE_FORMAT d = D @ CHR ''.'' # (M @ CHR ''.'' # Y)"
    unfolding strftime_DATE_FORMAT_def D_def M_def Y_def by simp
  have rd: "\<And>F R. concat (map (\<lambda>(d, r1). concat (map (F d) (re_dot r1)))
                  (re_d (D @ CHR ''.'' # R))) = F D R"
    unfolding D_def by (rule re_d_two_digits [OF b(1,2)])
  have rm: "\<And>F R. concat (map (\<lambda>(m, r3). concat (map (F m) (re_dot r3)))
                  (re_m (M @ CHR ''.'' # R))) = F M R"
    unfolding M_def by (rule re_m_two_digits [OF b(3,4)])
  have ry: "re_Y Y = [(Y, [])]" unfolding Y_def by (rule re_Y_year [OF y])
  have "[((d, m, y), r5). (d, r1) \<leftarrow> re_d (D @ CHR ''.'' # (M @ CHR ''.'' # Y)),
            r2 \<leftarrow> re_dot r1, (m, r3) \<leftarrow> re_m r2, r4 \<leftarrow> re_dot r3, (y, r5) \<leftarrow> re_Y r4]
        = [((D, M, Y), [])]"
    by (simp only: rd rm ry) simp
  then show ?thesis
    unfolding format_regex_match_def s D_def [symmetric] M_def [symmetric] Y_def [symmetric]
    by simp
qed

lemma strptime_strftime:
  assumes "valid_date d" "1000 \<le> year d"
  shows "strptime_DATE_FORMAT (strftime_DATE_FORMAT d)
         = Inr \<lparr>dt_date = d, hour = 0, minute = 0, second = 0, microsecond = 0\<rparr>"
proof -
  note b = valid_day_bounds [OF assms(1)]
  from assms have y: "1000 \<le> year d" "year d \<le> 9999"
    unfolding valid_date_def MAXYEAR_def by simp_all
  define D where "D = zero_pad 2 (day d)"
  define M where "M = zero_pad 2 (month d)"
  define Y where "Y = zero_pad 1 (year d)"
  have fm: "format_regex_match (strftime_DATE_FORMAT d) = Some ((D, M, Y), [])"
    unfolding D_def M_def Y_def by (rule format_regex_match_strftime [OF assms])
  have pd: "py_int D = Some (day d)" unfolding D_def by (rule py_int_two_digits [OF b(1,2)])
  have pm: "py_int M = Some (month d)"
    unfolding M_def using b(3,4) by (intro py_int_two_digits) simp_all
  have py: "py_int Y = Some (year d)"
    unfolding Y_def zero_pad_year [OF y] using y by (simp add: py_int_str_nat)
  have dn: "date_new (year d) (month d) (day d) = Inr d"
    using assms(1) unfolding date_new_def valid_date_def by simp
  show ?thesis
    unfolding strptime_DATE_FORMAT_def fm by (simp add: pd pm py dn bind_def)
qed

text \<open>The parser raises nothing but \<open>ValueError\<close>.\<close>

lemma strptime_error: "strptime_DATE_FORMAT v = Inl e \<Longrightarrow> e = ValueError"
  unfolding strptime_DATE_FORMAT_def
  by (auto simp: bind_Inl dest: date_new_error split: option.splits prod.splits if_splits)

text \<open>
  So \<open>add_birthday\<close> with a valid date written as \<open>DD.MM.YYYY\<close> stores that date.
\<close>

lemma add_birthday_formatted:
  assumes "valid_date d" "1000 \<le> year d"
  shows "add_birthday r (strftime_DATE_FORMAT d)
         = (r\<lparr>birthday := Some (Birthday \<lparr>dt_date = d, hour = 0, minute = 0, second = 0,
                                             microsecond = 0\<rparr>)\<rparr>,
            ''Birthday is added successfully'')"
  by (simp add: add_birthday_def Birthday_init_def strptime_strftime [OF assms])

text \<open>
  Claim C5: \<open>add_birthday\<close> parses its argument with the format \<open>%d.%m.%Y\<close>. When the
  parser returns a value, the record holds that value as its birthday afterwards, whatever
  it held before, and the result is the message of success; when the parser raises, the
  record is unchanged and the result is the fixed message about the format.
\<close>

theorem add_birthday_stores_or_reports:
  "(strptime_DATE_FORMAT v = Inr dt \<longrightarrow>
      add_birthday r v = (r\<lparr>birthday := Some (Birthday dt)\<rparr>, ''Birthday is added successfully''))
   \<and> (strptime_DATE_FORMAT v = Inl e \<longrightarrow>
      add_birthday r v = (r, ''Invalid date format. Use DD.MM.YYYY''))"
  by (simp add: add_birthday_def Birthday_init_def)

theorem add_birthday_stores_or_reports_witness:
  "strptime_DATE_FORMAT ''15.03.1990''
     = Inr \<lparr>dt_date = \<lparr>year = 1990, month = 3, day = 15\<rparr>,
            hour = 0, minute = 0, second = 0, microsecond = 0\<rparr>
   \<and> add_birthday (Record_init ''John'' None) ''15.03.1990''
       = (Record_init ''John'' None
            \<lparr>birthday := Some (Birthday \<lparr>dt_date = \<lparr>year = 1990, month = 3, day = 15\<rparr>,
                 hour = 0, minute = 0, second = 0, microsecond = 0\<rparr>)\<rparr>,
          ''Birthday is added successfully'')
   \<and> strptime_DATE_FORMAT ''23-01-1985'' = Inl ValueError
   \<and> add_birthday (fst (add_birthday (Record_init ''John'' None) ''15.03.1990'')) ''23-01-1985''
       = (fst (add_birthday (Record_init ''John'' None) ''15.03.1990''),
          ''Invalid date format. Use DD.MM.YYYY'')"
proof -
  have h1: "strptime_DATE_FORMAT ''15.03.1990''
     = Inr \<lparr>dt_date = \<lparr>year = 1990, month = 3, day = 15\<rparr>,
            hour = 0, minute = 0, second = 0, microsecond = 0\<rparr>" by code_simp
  have h2: "strptime_DATE_FORMAT ''23-01-1985'' = Inl ValueError" by code_simp
  from add_birthday_stores_or_reports
         [of "''15.03.1990''" "\<lparr>dt_date = \<lparr>year = 1990, month = 3, day = 15\<rparr>,
            hour = 0, minute = 0, second = 0, microsecond = 0\<rparr>" "Record_init ''John'' None"] h1
  have a: "add_birthday (Record_init ''John'' None) ''15.03.1990''
       = (Record_init ''John'' None
            \<lparr>birthday := Some (Birthday \<lparr>dt_date = \<lparr>year = 1990, month = 3, day = 15\<rparr>,
                 hour = 0, minute = 0, second = 0, microsecond = 0\<rparr>)\<rparr>,
          ''Birthday is added successfully'')" by blast
  from add_birthday_stores_or_reports
         [of "''23-01-1985''" _ "fst (add_birthday (Record_init ''John'' None) ''15.03.1990'')" ValueError] h2
  have b: "add_birthday (fst (add_birthday (Record_init ''John'' None) ''15.03.1990'')) ''23-01-1985''
       = (fst (add_birthday (Record_init ''John'' None) ''15.03.1990''),
          ''Invalid date format. Use DD.MM.YYYY'')" by blast
  from h1 a h2 b show ?thesis by blast
qed

text \<open>
  Claim C8 says that a \<open>Birthday\<close> built from \<open>15.03.1990\<close> is displayed as \<open>15.03.1990\<close>
  again. The program evaluated on that string: the construction succeeds, and the display
  form of the result, which is \<open>str\<close> of the stored \<open>datetime\<close>, is
  \<open>1990-03-15 00:00:00\<close>.
\<close>

theorem birthday_display_form:
  "Birthday_init ''15.03.1990''
     = Inr (Birthday \<lparr>dt_date = \<lparr>year = 1990, month = 3, day = 15\<rparr>,
                       hour = 0, minute = 0, second = 0, microsecond = 0\<rparr>)
   \<and> Birthday_str (Birthday \<lparr>dt_date = \<lparr>year = 1990, month = 3, day = 15\<rparr>,
          hour = 0, minute = 0, second = 0, microsecond = 0\<rparr>) = ''1990-03-15 00:00:00''
   \<and> Birthday_str (Birthday \<lparr>dt_date = \<lparr>year = 1990, month = 3, day = 15\<rparr>,
          hour = 0, minute = 0, second = 0, microsecond = 0\<rparr>) \<noteq> ''15.03.1990''"
  by code_simp

section \<open>The query for upcoming birthdays\<close>

lemma birthday_this_year_valid:
  assumes "birthday_this_year today b = Inr c"
  shows "valid_date c"
  using assms unfolding birthday_this_year_def replace_year_def
  by (auto simp: bind_Inr dest: date_new_valid split: if_splits)

lemma birthday_this_year_error:
  assumes "birthday_this_year today b = Inl e"
  shows "e = ValueError"
  using assms unfolding birthday_this_year_def replace_year_def
  by (auto simp: bind_Inl dest: date_new_error split: if_splits)

text \<open>
  After the two assignments the birthday is never before \<open>today\<close>: the lower bound of
  the window always holds.
\<close>

lemma birthday_this_year_not_before:
  assumes "valid_date today" and "birthday_this_year today b = Inr c"
  shows "0 \<le> date_sub_days c today"
proof -
  from assms(2) obtain c0 where c0: "replace_year b (year today) = Inr c0"
    and c: "(if date_lt c0 today then replace_year c0 (year today + 1) else Inr c0) = Inr c"
    unfolding birthday_this_year_def by (auto simp: bind_Inr)
  from c0 have v0: "valid_date c0" unfolding replace_year_def by (auto dest: date_new_valid)
  show ?thesis
  proof (cases "date_lt c0 today")
    case True
    with c have r: "replace_year c0 (year today + 1) = Inr c" by simp
    then have vc: "valid_date c" and yc: "year c = year today + 1"
      unfolding replace_year_def by (auto dest: date_new_valid)
    then have "date_lt today c" unfolding date_lt_def by simp
    with date_lt_toordinal [OF assms(1) vc] show ?thesis unfolding date_sub_days_def by simp
  next
    case False
    with c have "c = c0" by simp
    with False date_lt_toordinal [OF v0 assms(1)] show ?thesis
      unfolding date_sub_days_def by simp
  qed
qed

text \<open>
  The body of the loop on a record with a birthday: with \<open>c\<close> the birthday after the two
  assignments, an element is yielded when the number of days from \<open>today\<close> to \<open>c\<close> is
  from 0 to 7, and nothing otherwise; the weekend adjustment of \<open>c\<close> always returns.
\<close>

lemma upcoming_body_window:
  assumes "birthday contact = Some b"
    and "birthday_this_year today (datetime_date (birthday_value b)) = Inr c"
  shows "if 0 \<le> date_sub_days c today \<and> date_sub_days c today \<le> 7
         then \<exists>cd. adjust_for_weekend c = Inr cd
                \<and> upcoming_body today contact
                    = Inr (Some \<lparr>up_name = name_value (name contact),
                                  congratulation_date = strftime_DATE_FORMAT cd\<rparr>)
         else upcoming_body today contact = Inr None"
proof -
  from birthday_this_year_valid [OF assms(2)] have "valid_date c" .
  from adjust_for_weekend_correct [OF this]
  obtain cd where "adjust_for_weekend c = Inr cd" by blast
  then show ?thesis using assms by (simp add: upcoming_body_def bind_def Let_def)
qed

text \<open>
  Claim C3: for every record that contributes an element, with \<open>c\<close> as in claim C2, the
  congratulation date is \<open>c\<close> plus 2 days when \<open>c\<close> is a Saturday (weekday 5), \<open>c\<close> plus 1
  day when \<open>c\<close> is a Sunday (weekday 6), and \<open>c\<close> itself otherwise; the addition returns a
  date, and that date is neither a Saturday nor a Sunday. The element holds this date
  formatted with \<open>DATE_FORMAT\<close>.
\<close>

theorem congratulation_date_not_weekend:
  assumes "upcoming_body today contact = Inr (Some e)"
  shows "\<exists>b c cd. birthday contact = Some b
      \<and> birthday_this_year today (datetime_date (birthday_value b)) = Inr c
      \<and> adjust_for_weekend c
          = (if weekday c = 5 then date_add_days c 2
             else if weekday c = 6 then date_add_days c 1 else Inr c)
      \<and> adjust_for_weekend c = Inr cd
      \<and> toordinal cd = toordinal c + (if weekday c = 5 then 2 else if weekday c = 6 then 1 else 0)
      \<and> weekday cd \<noteq> 5 \<and> weekday cd \<noteq> 6
      \<and> e = \<lparr>up_name = name_value (name contact), congratulation_date = strftime_DATE_FORMAT cd\<rparr>"
proof -
  from assms obtain b where b: "birthday contact = Some b"
    by (cases "birthday contact") (simp_all add: upcoming_body_def)
  from assms b obtain c where c: "birthday_this_year today (datetime_date (birthday_value b)) = Inr c"
    by (auto simp: upcoming_body_def bind_Inr)
  from assms b c obtain cd where cd: "adjust_for_weekend c = Inr cd"
    and e: "e = \<lparr>up_name = name_value (name contact), congratulation_date = strftime_DATE_FORMAT cd\<rparr>"
    by (auto simp: upcoming_body_def bind_def Let_def split: if_splits sum.splits)
  from adjust_for_weekend_correct [OF birthday_this_year_valid [OF c]] cd
  have props: "toordinal cd = toordinal c + (if weekday c = 5 then 2 else if weekday c = 6 then 1 else 0)"
    "weekday cd \<noteq> 5" "weekday cd \<noteq> 6" by auto
  have shape: "adjust_for_weekend c
          = (if weekday c = 5 then date_add_days c 2
             else if weekday c = 6 then date_add_days c 1 else Inr c)"
    by (simp add: adjust_for_weekend_def WEEKEND_DAYS_def DAYS_IN_WEEK_def)
  from b c cd e props shape show ?thesis by blast
qed

theorem congratulation_date_not_weekend_witness:
  "upcoming_body \<lparr>year = 2024, month = 6, day = 10\<rparr>
        \<lparr>name = Name ''George'', phones = [],
         birthday = Some (Birthday \<lparr>dt_date = \<lparr>year = 1900, month = 6, day = 15\<rparr>,
                           hour = 0, minute = 0, second = 0, microsecond = 0\<rparr>)\<rparr>
     = Inr (Some \<lparr>up_name = ''George'', congratulation_date = ''17.06.2024''\<rparr>)
   \<and> (\<exists>c cd. birthday_this_year \<lparr>year = 2024, month = 6, day = 10\<rparr>
                 \<lparr>year = 1900, month = 6, day = 15\<rparr> = Inr c
        \<and> adjust_for_weekend c = Inr cd
        \<and> toordinal cd = toordinal c + (if weekday c = 5 then 2 else if weekday c = 6 then 1 else 0)
        \<and> weekday cd \<noteq> 5 \<and> weekday cd \<noteq> 6
        \<and> strftime_DATE_FORMAT cd = ''17.06.2024'')"
proof -
  let ?today = "\<lparr>year = 2024, month = 6, day = 10\<rparr>"
  let ?b = "Birthday \<lparr>dt_date = \<lparr>year = 1900, month = 6, day = 15\<rparr>,
                           hour = 0, minute = 0, second = 0, microsecond = 0\<rparr>"
  let ?G = "\<lparr>name = Name ''George'', phones = [], birthday = Some ?b\<rparr>"
  let ?e = "\<lparr>up_name = ''George'', congratulation_date = ''17.06.2024''\<rparr>"
  have h: "upcoming_body ?today ?G = Inr (Some ?e)" by code_simp
  from congratulation_date_not_weekend [OF h]
  obtain b c cd where *: "birthday ?G = Some b"
      "birthday_this_year ?today (datetime_date (birthday_value b)) = Inr c"
      "adjust_for_weekend c = Inr cd"
      "toordinal cd = toordinal c + (if weekday c = 5 then 2 else if weekday c = 6 then 1 else 0)"
      "weekday cd \<noteq> 5" "weekday cd \<noteq> 6"
      "?e = \<lparr>up_name = name_value (name ?G), congratulation_date = strftime_DATE_FORMAT cd\<rparr>"
    by blast
  from *(1) have "b = ?b" by simp
  with *(2) have c: "birthday_this_year ?today \<lparr>year = 1900, month = 6, day = 15\<rparr> = Inr c"
    by (simp add: datetime_date_def)
  from *(7) have "strftime_DATE_FORMAT cd = ''17.06.2024''" by simp
  with h c * show ?thesis by blast
qed

lemma upcoming_body_error:
  assumes "upcoming_body today contact = Inl e"
  shows "e = ValueError"
proof (cases "birthday contact")
  case None
  with assms show ?thesis by (simp add: upcoming_body_def)
next
  case (Some b)
  show ?thesis
  proof (cases "birthday_this_year today (datetime_date (birthday_value b))")
    case (Inl e')
    with assms Some have "e = e'" by (simp add: upcoming_body_def bind_def)
    with birthday_this_year_error [OF Inl] show ?thesis by simp
  next
    case (Inr c)
    from adjust_for_weekend_correct [OF birthday_this_year_valid [OF Inr]]
    obtain cd where "adjust_for_weekend c = Inr cd" by blast
    with assms Some Inr show ?thesis
      by (simp add: upcoming_body_def bind_def Let_def split: if_splits)
  qed
qed

lemma upcoming_body_leap_day:
  assumes "birthday contact = Some b"
    and "month (datetime_date (birthday_value b)) = 2"
    and "day (datetime_date (birthday_value b)) = 29"
    and "\<not> is_leap (year today)"
  shows "upcoming_body today contact = Inl ValueError"
proof -
  have "replace_year (datetime_date (birthday_value b)) (year today) = Inl ValueError"
    using assms(2-4)
    by (simp add: replace_year_def date_new_def days_in_month_def DAYS_IN_MONTH_def)
  then show ?thesis using assms(1)
    by (simp add: upcoming_body_def birthday_this_year_def bind_def)
qed

lemma upcoming_loop_raises:
  assumes "set ks \<subseteq> set (map fst d)" and "k \<in> set ks" and "dict_get d k = Some r"
    and "upcoming_body today r = Inl ValueError"
  shows "upcoming_loop today d ks acc = Inl ValueError"
  using assms(1,2)
proof (induction ks arbitrary: acc)
  case Nil
  then show ?case by simp
next
  case (Cons k' ks)
  from Cons.prems(1) have "k' \<in> set (map fst d)" by simp
  then obtain r' where r': "dict_get d k' = Some r'"
    using dict_get_None [of d k'] by (cases "dict_get d k'") auto
  show ?case
  proof (cases "upcoming_body today r'")
    case (Inl e)
    with upcoming_body_error [OF Inl] r' show ?thesis by simp
  next
    case (Inr res)
    with r' assms(3,4) have "k' \<noteq> k" by auto
    with Cons.prems have "k \<in> set ks" "set ks \<subseteq> set (map fst d)" by auto
    with Cons.IH have "\<And>acc. upcoming_loop today d ks acc = Inl ValueError" by blast
    with r' Inr show ?thesis by (cases res) simp_all
  qed
qed

text \<open>
  Claim C10: when the address book holds a record whose birthday is 29 February and the
  year of \<open>today\<close> is not a leap year, the query raises \<open>ValueError\<close> and returns no list:
  moving the birthday into the year of \<open>today\<close> goes through the constructor of \<open>date\<close>,
  which rejects the day, and nothing in the loop catches the error.
\<close>

theorem leap_day_birthday_raises:
  assumes "dict_ok (data book)" and "(k, r) \<in> set (data book)" and "birthday r = Some b"
    and "month (datetime_date (birthday_value b)) = 2"
    and "day (datetime_date (birthday_value b)) = 29"
    and "\<not> is_leap (year today)"
  shows "get_upcoming_birthdays today book = Inl ValueError"
proof -
  from dict_get_Some [OF assms(1,2)] have get: "dict_get (data book) k = Some r" .
  from assms(2) have mem: "k \<in> set (map fst (data book))" by force
  from upcoming_body_leap_day [OF assms(3-6)] have "upcoming_body today r = Inl ValueError" .
  from upcoming_loop_raises [OF _ mem get this] show ?thesis
    unfolding get_upcoming_birthdays_def by simp
qed

theorem leap_day_birthday_raises_witness:
  "dict_ok (data \<lparr>data = [(''Leap'', \<lparr>name = Name ''Leap'', phones = [],
         birthday = Some (Birthday \<lparr>dt_date = \<lparr>year = 2000, month = 2, day = 29\<rparr>,
                           hour = 0, minute = 0, second = 0, microsecond = 0\<rparr>)\<rparr>)]\<rparr>)
   \<and> \<not> is_leap (year \<lparr>year = 2023, month = 6, day = 10\<rparr>)
   \<and> get_upcoming_birthdays \<lparr>year = 2023, month = 6, day = 10\<rparr>
        \<lparr>data = [(''Leap'', \<lparr>name = Name ''Leap'', phones = [],
         birthday = Some (Birthday \<lparr>dt_date = \<lparr>year = 2000, month = 2, day = 29\<rparr>,
                           hour = 0, minute = 0, second = 0, microsecond = 0\<rparr>)\<rparr>)]\<rparr>
       = Inl ValueError"
proof -
  let ?b = "Birthday \<lparr>dt_date = \<lparr>year = 2000, month = 2, day = 29\<rparr>,
                           hour = 0, minute = 0, second = 0, microsecond = 0\<rparr>"
  let ?r = "\<lparr>name = Name ''Leap'', phones = [], birthday = Some ?b\<rparr>"
  let ?book = "\<lparr>data = [(''Leap'', ?r)]\<rparr>"
  let ?today = "\<lparr>year = 2023, month = 6, day = 10\<rparr>"
  have h1: "dict_ok (data ?book)" by (simp add: dict_ok_def)
  have h2: "(''Leap'', ?r) \<in> set (data ?book)" by simp
  have h3: "birthday ?r = Some ?b" by simp
  have h4: "month (datetime_date (birthday_value ?b)) = 2" by (simp add: datetime_date_def)
  have h5: "day (datetime_date (birthday_value ?b)) = 29" by (simp add: datetime_date_def)
  have h6: "\<not> is_leap (year ?today)" by (simp add: is_leap_def)
  from leap_day_birthday_raises [OF h1 h2 h3 h4 h5 h6] h1 h6 show ?thesis by blast
qed

text \<open>The result list holds, in the order of the dictionary, what the body yields.\<close>

lemma upcoming_loop_result:
  assumes "upcoming_loop today d ks acc = Inr res"
  shows "res = acc @ concat (map (\<lambda>k. case dict_get d k of
                 Some r \<Rightarrow> (case upcoming_body today r of Inr (Some e) \<Rightarrow> [e] | _ \<Rightarrow> [])
               | None \<Rightarrow> []) ks)"
  using assms
proof (induction ks arbitrary: acc)
  case Nil
  then show ?case by simp
next
  case (Cons k ks)
  show ?case
  proof (cases "dict_get d k")
    case None
    with Cons.prems show ?thesis by simp
  next
    case (Some r)
    show ?thesis
    proof (cases "upcoming_body today r")
      case (Inl e)
      with Cons.prems Some show ?thesis by simp
    next
      case (Inr res')
      show ?thesis
      proof (cases res')
        case None
        with Cons.prems Some Inr have "upcoming_loop today d ks acc = Inr res" by simp
        from Cons.IH [OF this] Some Inr None show ?thesis by simp
      next
        case (Some e)
        with Cons.prems \<open>dict_get d k = Some r\<close> Inr
        have "upcoming_loop today d ks (acc @ [e]) = Inr res" by simp
        from Cons.IH [OF this] \<open>dict_get d k = Some r\<close> Inr Some show ?thesis by simp
      qed
    qed
  qed
qed

lemma get_upcoming_birthdays_result:
  assumes "dict_ok (data book)" and "get_upcoming_birthdays today book = Inr res"
  shows "res = concat (map (\<lambda>kv. case upcoming_body today (snd kv) of
                               Inr (Some e) \<Rightarrow> [e] | _ \<Rightarrow> []) (data book))"
proof -
  let ?f = "\<lambda>r. case r of
                 Some r \<Rightarrow> (case upcoming_body today r of Inr (Some e) \<Rightarrow> [e] | _ \<Rightarrow> [])
               | None \<Rightarrow> []"
  from upcoming_loop_result [OF assms(2) [unfolded get_upcoming_birthdays_def]]
  have "res = concat (map (\<lambda>k. ?f (dict_get (data book) k)) (map fst (data book)))" by simp
  also have "map (\<lambda>k. ?f (dict_get (data book) k)) (map fst (data book))
      = map ?f (map (dict_get (data book)) (map fst (data book)))" by simp
  also have "\<dots> = map ?f (map (\<lambda>kv. Some (snd kv)) (data book))"
    using dict_get_keys [OF assms(1)] by simp
  finally show ?thesis by (simp add: comp_def)
qed

text \<open>When the query returns a list, the body of the loop returned for every key.\<close>

lemma upcoming_loop_bodies_return:
  assumes "upcoming_loop today d ks acc = Inr res" and "k \<in> set ks"
  shows "\<exists>r res'. dict_get d k = Some r \<and> upcoming_body today r = Inr res'"
  using assms
proof (induction ks arbitrary: acc)
  case Nil
  then show ?case by simp
next
  case (Cons k' ks)
  from Cons.prems(1) obtain r where r: "dict_get d k' = Some r"
    by (cases "dict_get d k'") simp_all
  from Cons.prems(1) r obtain o' where o': "upcoming_body today r = Inr o'"
    by (cases "upcoming_body today r") simp_all
  show ?case
  proof (cases "k = k'")
    case True
    with r o' show ?thesis by blast
  next
    case False
    with Cons.prems(2) have k: "k \<in> set ks" by simp
    from Cons.prems(1) r o' obtain acc' where "upcoming_loop today d ks acc' = Inr res"
      by (cases o') auto
    from Cons.IH [OF this k] show ?thesis .
  qed
qed

text \<open>
  Claim C2 says that in the query every record with a birthday is included exactly when
  the number of days \<open>delta\<close> from \<open>today\<close> to its birthday, moved into the year of \<open>today\<close>
  or the next, is from 0 to 7. The program evaluated on a book of two records, on
  10 June 2023: for the first record \<open>delta\<close> is 2, but the second has its birthday on
  29 February, so the query raises and includes no record.
\<close>

theorem upcoming_query_raises_counterexample:
  "birthday_this_year \<lparr>year = 2023, month = 6, day = 10\<rparr> \<lparr>year = 1990, month = 6, day = 12\<rparr>
     = Inr \<lparr>year = 2023, month = 6, day = 12\<rparr>
   \<and> date_sub_days \<lparr>year = 2023, month = 6, day = 12\<rparr> \<lparr>year = 2023, month = 6, day = 10\<rparr> = 2
   \<and> get_upcoming_birthdays \<lparr>year = 2023, month = 6, day = 10\<rparr>
        \<lparr>data = [(''Ok'', \<lparr>name = Name ''Ok'', phones = [],
                   birthday = Some (Birthday \<lparr>dt_date = \<lparr>year = 1990, month = 6, day = 12\<rparr>,
                         hour = 0, minute = 0, second = 0, microsecond = 0\<rparr>)\<rparr>),
                 (''Leap'', \<lparr>name = Name ''Leap'', phones = [],
                   birthday = Some (Birthday \<lparr>dt_date = \<lparr>year = 2000, month = 2, day = 29\<rparr>,
                         hour = 0, minute = 0, second = 0, microsecond = 0\<rparr>)\<rparr>)]\<rparr>
       = Inl ValueError"
  by code_simp

text \<open>
  Claim C2 as amended: whenever the query returns a list, the list is made, in the order
  of the book, of what each record contributes, and a record with a birthday contributes
  one element exactly when \<open>0 \<le> delta \<le> 7\<close>, with \<open>delta\<close> the number of days from \<open>today\<close>
  to \<open>c\<close>, the birthday moved into the year of \<open>today\<close> or the next; otherwise, and without
  a birthday, it contributes nothing. So a birthday 7 days ahead is included and one
  8 days ahead is not.
\<close>

theorem upcoming_query_window:
  assumes "dict_ok (data book)" and "get_upcoming_birthdays today book = Inr res"
  shows "\<exists>os. length os = length (data book) \<and> res = concat os
      \<and> (\<forall>i < length (data book).
            case birthday (snd (data book ! i)) of
              None \<Rightarrow> os ! i = []
            | Some b \<Rightarrow>
                (\<exists>c. birthday_this_year today (datetime_date (birthday_value b)) = Inr c
                   \<and> (if 0 \<le> date_sub_days c today \<and> date_sub_days c today \<le> 7
                       then \<exists>cd. adjust_for_weekend c = Inr cd
                              \<and> os ! i = [\<lparr>up_name = name_value (name (snd (data book ! i))),
                                           congratulation_date = strftime_DATE_FORMAT cd\<rparr>]
                       else os ! i = [])))"
proof -
  let ?f = "\<lambda>kv. case upcoming_body today (snd kv) of Inr (Some e) \<Rightarrow> [e] | _ \<Rightarrow> []"
  let ?os = "map ?f (data book)"
  have res: "res = concat ?os" by (rule get_upcoming_birthdays_result [OF assms])
  have each: "case birthday (snd (data book ! i)) of
              None \<Rightarrow> ?os ! i = []
            | Some b \<Rightarrow>
                (\<exists>c. birthday_this_year today (datetime_date (birthday_value b)) = Inr c
                   \<and> (if 0 \<le> date_sub_days c today \<and> date_sub_days c today \<le> 7
                       then \<exists>cd. adjust_for_weekend c = Inr cd
                              \<and> ?os ! i = [\<lparr>up_name = name_value (name (snd (data book ! i))),
                                           congratulation_date = strftime_DATE_FORMAT cd\<rparr>]
                       else ?os ! i = []))"
    if i: "i < length (data book)" for i
  proof -
    obtain k r where kr: "data book ! i = (k, r)" by (cases "data book ! i")
    with i have mem: "(k, r) \<in> set (data book)" by (metis nth_mem)
    then have key: "k \<in> set (map fst (data book))" by force
    from dict_get_Some [OF assms(1) mem] have get: "dict_get (data book) k = Some r" .
    from upcoming_loop_bodies_return [OF assms(2) [unfolded get_upcoming_birthdays_def] key] get
    obtain res' where body: "upcoming_body today r = Inr res'" by auto
    have nth: "?os ! i = ?f (k, r)" using i kr by simp
    show ?thesis
    proof (cases "birthday r")
      case None
      then have "upcoming_body today r = Inr None" by (simp add: upcoming_body_def)
      with None kr nth show ?thesis by simp
    next
      case (Some b)
      from body Some obtain c
        where c: "birthday_this_year today (datetime_date (birthday_value b)) = Inr c"
        by (auto simp: upcoming_body_def bind_Inr)
      from upcoming_body_window [OF Some c]
      have "if 0 \<le> date_sub_days c today \<and> date_sub_days c today \<le> 7
            then \<exists>cd. adjust_for_weekend c = Inr cd
                   \<and> ?os ! i = [\<lparr>up_name = name_value (name r),
                                congratulation_date = strftime_DATE_FORMAT cd\<rparr>]
            else ?os ! i = []"
        unfolding nth by (auto split: if_splits)
      with Some kr c show ?thesis by auto
    qed
  qed
  have "length ?os = length (data book)" by simp
  with res each show ?thesis by blast
qed


theorem upcoming_query_window_witness:
  "dict_ok (data \<lparr>data = [(''Alice'', \<lparr>name = Name ''Alice'', phones = [],
                   birthday = Some (Birthday \<lparr>dt_date = \<lparr>year = 2000, month = 6, day = 17\<rparr>,
                         hour = 0, minute = 0, second = 0, microsecond = 0\<rparr>)\<rparr>),
                 (''Charlie'', \<lparr>name = Name ''Charlie'', phones = [],
                   birthday = Some (Birthday \<lparr>dt_date = \<lparr>year = 1980, month = 6, day = 18\<rparr>,
                         hour = 0, minute = 0, second = 0, microsecond = 0\<rparr>)\<rparr>)]\<rparr>)
   \<and> get_upcoming_birthdays \<lparr>year = 2024, month = 6, day = 10\<rparr>
        \<lparr>data = [(''Alice'', \<lparr>name = Name ''Alice'', phones = [],
                   birthday = Some (Birthday \<lparr>dt_date = \<lparr>year = 2000, month = 6, day = 17\<rparr>,
                         hour = 0, minute = 0, second = 0, microsecond = 0\<rparr>)\<rparr>),
                 (''Charlie'', \<lparr>name = Name ''Charlie'', phones = [],
                   birthday = Some (Birthday \<lparr>dt_date = \<lparr>year = 1980, month = 6, day = 18\<rparr>,
                         hour = 0, minute = 0, second = 0, microsecond = 0\<rparr>)\<rparr>)]\<rparr>
       = Inr [\<lparr>up_name = ''Alice'', congratulation_date = ''17.06.2024''\<rparr>]
   \<and> date_sub_days \<lparr>year = 2024, month = 6, day = 17\<rparr> \<lparr>year = 2024, month = 6, day = 10\<rparr> = 7
   \<and> date_sub_days \<lparr>year = 2024, month = 6, day = 18\<rparr> \<lparr>year = 2024, month = 6, day = 10\<rparr> = 8
   \<and> (\<exists>os. length os = 2
          \<and> [\<lparr>up_name = ''Alice'', congratulation_date = ''17.06.2024''\<rparr>] = concat os
          \<and> os ! 0 = [\<lparr>up_name = ''Alice'', congratulation_date = ''17.06.2024''\<rparr>]
          \<and> os ! 1 = [])"
proof -
  let ?today = "\<lparr>year = 2024, month = 6, day = 10\<rparr>"
  let ?bA = "Birthday \<lparr>dt_date = \<lparr>year = 2000, month = 6, day = 17\<rparr>,
                           hour = 0, minute = 0, second = 0, microsecond = 0\<rparr>"
  let ?A = "\<lparr>name = Name ''Alice'', phones = [], birthday = Some ?bA\<rparr>"
  let ?bC = "Birthday \<lparr>dt_date = \<lparr>year = 1980, month = 6, day = 18\<rparr>,
                           hour = 0, minute = 0, second = 0, microsecond = 0\<rparr>"
  let ?C = "\<lparr>name = Name ''Charlie'', phones = [], birthday = Some ?bC\<rparr>"
  let ?book = "\<lparr>data = [(''Alice'', ?A), (''Charlie'', ?C)]\<rparr>"
  let ?e = "\<lparr>up_name = ''Alice'', congratulation_date = ''17.06.2024''\<rparr>"
  have h1: "dict_ok (data ?book)" by (simp add: dict_ok_def)
  have h2: "get_upcoming_birthdays ?today ?book = Inr [?e]" by code_simp
  have cA: "birthday_this_year ?today (datetime_date (birthday_value ?bA))
      = Inr \<lparr>year = 2024, month = 6, day = 17\<rparr>" by code_simp
  have dA: "date_sub_days \<lparr>year = 2024, month = 6, day = 17\<rparr> ?today = 7" by code_simp
  have wA: "adjust_for_weekend \<lparr>year = 2024, month = 6, day = 17\<rparr>
      = Inr \<lparr>year = 2024, month = 6, day = 17\<rparr>" by code_simp
  have sA: "strftime_DATE_FORMAT \<lparr>year = 2024, month = 6, day = 17\<rparr> = ''17.06.2024''"
    by code_simp
  have cC: "birthday_this_year ?today (datetime_date (birthday_value ?bC))
      = Inr \<lparr>year = 2024, month = 6, day = 18\<rparr>" by code_simp
  have dC: "date_sub_days \<lparr>year = 2024, month = 6, day = 18\<rparr> ?today = 8" by code_simp
  from upcoming_query_window [OF h1 h2]
  obtain os where os: "length os = length (data ?book)" "[?e] = concat os"
    and all: "\<forall>i < length (data ?book).
            case birthday (snd (data ?book ! i)) of
              None \<Rightarrow> os ! i = []
            | Some b \<Rightarrow>
                (\<exists>c. birthday_this_year ?today (datetime_date (birthday_value b)) = Inr c
                   \<and> (if 0 \<le> date_sub_days c ?today \<and> date_sub_days c ?today \<le> 7
                       then \<exists>cd. adjust_for_weekend c = Inr cd
                              \<and> os ! i = [\<lparr>up_name = name_value (name (snd (data ?book ! i))),
                                           congratulation_date = strftime_DATE_FORMAT cd\<rparr>]
                       else os ! i = []))"
    by blast
  have len: "length os = 2" using os(1) by simp
  have o0: "os ! 0 = [?e]" using all [rule_format, of 0] cA dA wA sA by simp
  have o1: "os ! 1 = []" using all [rule_format, of 1] cC dC by simp
  from h1 h2 dA dC len os(2) o0 o1 show ?thesis by blast
qed

text \<open>The query returns a list when the body of the loop returns for every record.\<close>

lemma upcoming_loop_returns:
  assumes "set ks \<subseteq> set (map fst d)"
    and "\<forall>k \<in> set ks. \<forall>r. dict_get d k = Some r \<longrightarrow> (\<exists>res. upcoming_body today r = Inr res)"
  shows "\<exists>res. upcoming_loop today d ks acc = Inr res"
  using assms
proof (induction ks arbitrary: acc)
  case Nil
  then show ?case by simp
next
  case (Cons k ks)
  from Cons.prems(1) have "k \<in> set (map fst d)" by simp
  then obtain r where r: "dict_get d k = Some r"
    using dict_get_None [of d k] by (cases "dict_get d k") auto
  from Cons.prems(2) r obtain res' where res': "upcoming_body today r = Inr res'" by auto
  have sub: "set ks \<subseteq> set (map fst d)" using Cons.prems(1) by simp
  have body: "\<forall>k \<in> set ks. \<forall>r. dict_get d k = Some r
      \<longrightarrow> (\<exists>res. upcoming_body today r = Inr res)"
    using Cons.prems(2) by simp
  have rest: "\<And>acc. \<exists>res. upcoming_loop today d ks acc = Inr res"
    using Cons.IH [OF sub body] by blast
  show ?case using r res' rest by (cases res') simp_all
qed

lemma get_upcoming_birthdays_returns:
  assumes "\<forall>kv \<in> set (data book). \<exists>res. upcoming_body today (snd kv) = Inr res"
  shows "\<exists>res. get_upcoming_birthdays today book = Inr res"
proof -
  have "\<forall>k \<in> set (map fst (data book)). \<forall>r. dict_get (data book) k = Some r
      \<longrightarrow> (\<exists>res. upcoming_body today r = Inr res)"
    using assms dict_get_mem by fastforce
  from upcoming_loop_returns [OF _ this] show ?thesis
    unfolding get_upcoming_birthdays_def by blast
qed

text \<open>
  The birthday can be moved into the year of \<open>today\<close> and into the next one unless it
  is 29 February or the calendar ends.
\<close>

lemma replace_year_returns:
  assumes "valid_date b" and "\<not> (month b = 2 \<and> day b = 29)" and "1 \<le> y" and "y \<le> 9999"
  shows "replace_year b y = Inr \<lparr>year = y, month = month b, day = day b\<rparr>"
proof -
  from assms(1) have m: "1 \<le> month b" "month b \<le> 12" and d: "1 \<le> day b"
    "day b \<le> days_in_month (year b) (month b)" unfolding valid_date_def by simp_all
  have "day b \<le> days_in_month y (month b)"
  proof (cases "month b = 2")
    case True
    with d(2) have "day b \<le> 29" unfolding days_in_month_def DAYS_IN_MONTH_def
      by (simp split: if_splits)
    with assms(2) True have "day b \<le> 28" by simp
    with True show ?thesis unfolding days_in_month_def DAYS_IN_MONTH_def by simp
  next
    case False
    with d(2) show ?thesis unfolding days_in_month_def by simp
  qed
  with m d(1) assms(3,4) show ?thesis
    unfolding replace_year_def date_new_def MINYEAR_def MAXYEAR_def by simp
qed

lemma birthday_this_year_returns:
  assumes "valid_date b" and "\<not> (month b = 2 \<and> day b = 29)"
    and "1 \<le> year today" and "year today < 9999"
  shows "\<exists>c. birthday_this_year today b = Inr c \<and> month c = month b \<and> day c = day b
           \<and> (year c = year today \<or> year c = year today + 1)"
proof -
  let ?c = "\<lparr>year = year today, month = month b, day = day b\<rparr>"
  have 1: "replace_year b (year today) = Inr ?c"
    using replace_year_returns [OF assms(1,2), of "year today"] assms(3,4) by simp
  have v: "valid_date ?c" using 1 unfolding replace_year_def by (auto dest: date_new_valid)
  have "\<not> (month ?c = 2 \<and> day ?c = 29)" using assms(2) by simp
  from replace_year_returns [OF v this, of "year today + 1"] assms(3,4)
  have 2: "replace_year ?c (year today + 1)
      = Inr \<lparr>year = year today + 1, month = month b, day = day b\<rparr>" by simp
  show ?thesis unfolding birthday_this_year_def using 1 2 by (simp add: bind_def)
qed

text \<open>
  So the body of the loop returns for every record without a birthday and for every
  record whose birthday is not 29 February, as long as \<open>today\<close> is before the year 9999.
\<close>

lemma upcoming_body_returns:
  assumes "\<forall>b. birthday contact = Some b \<longrightarrow>
             valid_date (datetime_date (birthday_value b))
             \<and> \<not> (month (datetime_date (birthday_value b)) = 2
                  \<and> day (datetime_date (birthday_value b)) = 29)"
    and "1 \<le> year today" and "year today < 9999"
  shows "\<exists>res. upcoming_body today contact = Inr res"
proof (cases "birthday contact")
  case None
  then show ?thesis by (simp add: upcoming_body_def)
next
  case (Some b)
  with assms(1) have "valid_date (datetime_date (birthday_value b))"
    and "\<not> (month (datetime_date (birthday_value b)) = 2
           \<and> day (datetime_date (birthday_value b)) = 29)" by simp_all
  from birthday_this_year_returns [OF this assms(2,3)]
  obtain c where c: "birthday_this_year today (datetime_date (birthday_value b)) = Inr c"
    by blast
  from adjust_for_weekend_correct [OF birthday_this_year_valid [OF c]]
  obtain cd where "adjust_for_weekend c = Inr cd" by blast
  with Some c show ?thesis by (simp add: upcoming_body_def bind_def Let_def)
qed

end
